theory Spec2Isabelle
  imports Main
begin

section \<open>Data model\<close>

text \<open>
  The plugin works on JavaScript objects. A file record is an object with a \<open>contents\<close>
  buffer, an optional \<open>layout\<close> property and arbitrary front-matter properties. The
  \<open>layout\<close> property is a name, the sentinel \<open>false\<close>, or absent; the source tests it
  for truthiness, and the empty string is falsy. Front matter that gives \<open>layout\<close> another
  kind of value (a number, \<open>true\<close>, a list) is outside this data model. The source file
  holds two variants of the plugin: the nested variant, which renders the layout forest
  first, and the chain variant, which renders every file through its chain of layouts.
\<close>

datatype layoutval = Undefined | LFalse | LStr string

datatype jsval = JBool bool | JNum int | JStr string

datatype error =
    InvalidPattern
  | NoFiles
  | Circular string
  | CannotFindLayout string
  | TypeError
  | EngineError string

text \<open>
  The three markers \<open>seen\<close>, \<open>finished\<close> and \<open>children\<close> are the symbol-keyed
  properties that \<open>renderNestedLayouts\<close> puts on the layout records; an absent marker
  is \<open>False\<close> (or \<open>None\<close> for the children array).
\<close>

record filerec =
  layout :: layoutval
  contents :: string
  data :: "string \<rightharpoonup> jsval"
  seen :: bool
  finished :: bool
  children :: "string list option"

type_synonym files = "(string \<times> filerec) list"
type_synonym locals = "string \<rightharpoonup> jsval"
type_synonym transformer = "string \<Rightarrow> locals \<Rightarrow> error + string"

text \<open>JavaScript truthiness of a \<open>layout\<close> value.\<close>

fun truthy :: "layoutval \<Rightarrow> bool" where
  "truthy (LStr s) = (s \<noteq> [])"
| "truthy _ = False"

subsection \<open>Inherited properties\<close>

text \<open>
  The files mapping, the layout collection and the transformer cache are plain objects,
  so \<open>obj[name]\<close> and \<open>name in obj\<close> also find the properties that every object
  inherits from \<open>Object.prototype\<close>. Eleven of them are functions; \<open>__proto__\<close> is the
  prototype object itself. None of these values has a \<open>layout\<close> or a \<open>contents\<close>
  property, and none of them is enumerated by \<open>Object.keys\<close>.
\<close>

definition inheritedFunctions :: "string list" where
  "inheritedFunctions =
     [''constructor'', ''__defineGetter__'', ''__defineSetter__'', ''hasOwnProperty'',
      ''__lookupGetter__'', ''__lookupSetter__'', ''isPrototypeOf'', ''propertyIsEnumerable'',
      ''toString'', ''valueOf'', ''toLocaleString'']"

definition inherited :: "string \<Rightarrow> bool" where
  "inherited name = (name \<in> set inheritedFunctions \<or> name = ''__proto__'')"

subsection \<open>getLayout\<close>

fun getLayout :: "filerec \<Rightarrow> layoutval \<Rightarrow> layoutval" where
  "getLayout f dflt = (if truthy (layout f) \<or> layout f = LFalse then layout f else dflt)"

subsection \<open>Transformer resolver\<close>

text \<open>
  \<open>toTransformer\<close> and \<open>jstransformer\<close> are external: the parameter \<open>toTransformer\<close>
  gives, for an extension, the render function of its engine (with the engine options
  already applied), or \<open>None\<close> when no engine is registered. The module-level cache
  stores \<open>false\<close> for a missing engine, here \<open>Some None\<close>. The test \<open>ext in cache\<close>
  is also true of an inherited property name, and \<open>cache[ext]\<close> is then the inherited
  value: it is truthy and has no \<open>render\<close> method.
\<close>

datatype handle = NoEngine | Engine transformer | NotAnEngine

type_synonym cache = "string \<rightharpoonup> transformer option"

fun toHandle :: "transformer option \<Rightarrow> handle" where
  "toHandle None = NoEngine"
| "toHandle (Some t) = Engine t"

text \<open>The truth value of what \<open>getTransformer\<close> returns.\<close>

fun truthyHandle :: "handle \<Rightarrow> bool" where
  "truthyHandle NoEngine = False"
| "truthyHandle (Engine t) = True"
| "truthyHandle NotAnEngine = True"

definition getTransformer ::
  "(string \<Rightarrow> transformer option) \<Rightarrow> cache \<Rightarrow> string \<Rightarrow> handle \<times> cache" where
  "getTransformer toTransformer cache ext =
     (if inherited ext then (NotAnEngine, cache)
      else
        (case cache ext of
           Some t \<Rightarrow> (toHandle t, cache)
         | None \<Rightarrow> (toHandle (toTransformer ext), cache(ext \<mapsto> toTransformer ext))))"

text \<open>
  What a lookup returns during a pass that starts with the cache \<open>cache\<close>. The lemma
  \<open>resolver_stable\<close> below shows that a lookup leaves this function unchanged, and
  \<open>resolver_lookup\<close> that it is \<open>lookupEngine gt\<close>, where \<open>gt\<close> gives the engine of the
  extensions that are not inherited names. The rest of the development takes \<open>gt\<close> as a
  parameter.
\<close>

definition resolver :: "(string \<Rightarrow> transformer option) \<Rightarrow> cache \<Rightarrow> string \<Rightarrow> handle" where
  "resolver toTransformer cache ext = fst (getTransformer toTransformer cache ext)"

definition lookupEngine :: "(string \<Rightarrow> transformer option) \<Rightarrow> string \<Rightarrow> handle" where
  "lookupEngine gt ext = (if inherited ext then NotAnEngine else toHandle (gt ext))"

subsection \<open>validate\<close>

text \<open>\<open>layout.split('.').pop()\<close>: the text after the last dot, the whole name without one.\<close>

definition extension :: "string \<Rightarrow> string" where
  "extension l = rev (takeWhile (\<lambda>c. c \<noteq> CHR ''.'') (rev l))"

text \<open>
  \<open>validate\<close> returns the transformer, which the caller's \<open>filter\<close> reads as a truth
  value. A file name that is neither a key of \<open>files\<close> nor an inherited name makes
  \<open>getLayout\<close> read a property of \<open>undefined\<close>. Under an inherited name \<open>files[filename]\<close>
  is a value without \<open>layout\<close> and without \<open>contents\<close>: the layout is the default, and
  \<open>isUtf8\<close> reads the length of \<open>undefined\<close>.
\<close>

definition validate ::
  "(string \<Rightarrow> transformer option) \<Rightarrow> (string \<Rightarrow> bool) \<Rightarrow> layoutval \<Rightarrow> files \<Rightarrow> string \<Rightarrow> error + bool" where
  "validate gt isUtf8 dflt fs filename =
     (case map_of fs filename of
        None \<Rightarrow>
          if inherited filename
          then
            (case dflt of
               LStr l \<Rightarrow>
                 if l = [] then Inr False
                 else if CHR ''.'' \<notin> set l then Inr False
                 else Inl TypeError
             | _ \<Rightarrow> Inr False)
          else Inl TypeError
      | Some f \<Rightarrow>
          (case getLayout f dflt of
             LStr l \<Rightarrow>
               if l = [] then Inr False
               else if CHR ''.'' \<notin> set l then Inr False
               else if \<not> isUtf8 (contents f) then Inr False
               else Inr (truthyHandle (lookupEngine gt (extension l)))
           | _ \<Rightarrow> Inr False))"

text \<open>\<open>matchedFiles.filter(filename => validate(...))\<close>; an exception ends the filter.\<close>

fun filterValid ::
  "(string \<Rightarrow> transformer option) \<Rightarrow> (string \<Rightarrow> bool) \<Rightarrow> layoutval \<Rightarrow> files \<Rightarrow> string list \<Rightarrow> error + string list" where
  "filterValid gt isUtf8 dflt fs [] = Inr []"
| "filterValid gt isUtf8 dflt fs (k # ks) =
     (case validate gt isUtf8 dflt fs k of
        Inl e \<Rightarrow> Inl e
      | Inr b \<Rightarrow>
          (case filterValid gt isUtf8 dflt fs ks of
             Inl e \<Rightarrow> Inl e
           | Inr vs \<Rightarrow> Inr (if b then k # vs else vs)))"

subsection \<open>Pattern selection\<close>

text \<open>
  \<open>multimatch\<close>, \<open>minimatch\<close> and \<open>path\<close> are external libraries. \<open>mini k p\<close> stands for
  \<open>minimatch(k, p)\<close> and is a parameter. \<open>multimatch\<close> is the library's reduction over
  the patterns: a pattern starting with \<open>!\<close> removes its matches from the result so far,
  any other pattern adds its matches; an \<open>undefined\<close> pattern argument is the empty
  list of patterns. The \<open>pattern\<close> option may be an array of any values: an element
  that is not a string makes \<open>minimatch\<close> throw a TypeError when the reduction reaches
  it. \<open>joinPath\<close> is \<open>path.join\<close> of two segments on POSIX, which drops a zero-length
  segment.
\<close>

datatype patelem = PStr string | PNotString

fun matchStep ::
  "(string \<Rightarrow> string \<Rightarrow> bool) \<Rightarrow> string list \<Rightarrow> string list \<Rightarrow> patelem \<Rightarrow> error + string list" where
  "matchStep mini list ret PNotString = Inl TypeError"
| "matchStep mini list ret (PStr pat) =
     (if pat \<noteq> [] \<and> hd pat = CHR ''!''
      then Inr (filter (\<lambda>k. k \<notin> set (filter (\<lambda>k. mini k (tl pat)) list)) ret)
      else Inr (ret @ filter (\<lambda>k. k \<notin> set ret) (filter (\<lambda>k. mini k pat) list)))"

text \<open>\<open>patterns.reduce(...)\<close>, from the result \<open>ret\<close> so far.\<close>

fun matchAll ::
  "(string \<Rightarrow> string \<Rightarrow> bool) \<Rightarrow> string list \<Rightarrow> string list \<Rightarrow> patelem list \<Rightarrow> error + string list" where
  "matchAll mini list ret [] = Inr ret"
| "matchAll mini list ret (p # ps) =
     (case matchStep mini list ret p of
        Inl e \<Rightarrow> Inl e
      | Inr ret' \<Rightarrow> matchAll mini list ret' ps)"

definition multimatch ::
  "(string \<Rightarrow> string \<Rightarrow> bool) \<Rightarrow> string list \<Rightarrow> patelem list option \<Rightarrow> error + string list" where
  "multimatch mini list pats =
     (case pats of
        None \<Rightarrow> Inr []
      | Some patterns \<Rightarrow>
          if list = [] \<or> patterns = [] then Inr []
          else matchAll mini list [] patterns)"

definition joinPath :: "string \<Rightarrow> string \<Rightarrow> string" where
  "joinPath a b = (if a = [] then b else a @ ''/'' @ b)"

text \<open>
  The \<open>pattern\<close> option: a string, an array (of strings or of other values), or any
  other value.
\<close>

datatype patternopt = PString string | PArray "patelem list" | POther

record settings =
  pattern :: patternopt
  dflt :: layoutval

text \<open>
  \<open>setLayoutsPrefix\<close> updates the module-level variable \<open>layoutsPrefix\<close>. Its argument
  \<open>relativePath\<close> is \<open>path.relative(metalsmith.source(), metalsmith.path(settings.directory))\<close>.
  The nested variant leaves the variable as it was when the layouts are outside the
  source directory; the chain variant resets it.
\<close>

definition startsWithUp :: "string \<Rightarrow> bool" where
  "startsWithUp relativePath = (take 3 relativePath = ''../'')"

definition setLayoutsPrefix_nested :: "string \<Rightarrow> string \<Rightarrow> string" where
  "setLayoutsPrefix_nested relativePath layoutsPrefix =
     (if \<not> startsWithUp relativePath then relativePath else layoutsPrefix)"

definition setLayoutsPrefix_chain :: "string \<Rightarrow> string \<Rightarrow> string" where
  "setLayoutsPrefix_chain relativePath layoutsPrefix =
     (if \<not> startsWithUp relativePath then relativePath else [])"

text \<open>
  The pattern check at the start of the plugin: \<open>None\<close> is the variable left \<open>undefined\<close>.
  The test of an array is \<open>Array.isArray\<close>; its elements are not looked at.
\<close>

fun checkPattern :: "patternopt \<Rightarrow> patelem list option" where
  "checkPattern (PString p) = Some [PStr p]"
| "checkPattern (PArray ps) = Some ps"
| "checkPattern POther = None"

section \<open>Dependency tree builder (nested variant)\<close>

text \<open>
  The layout collection is an object keyed by layout name; the list keeps the order in
  which \<open>Object.keys\<close> enumerates it. \<open>modify name g c\<close> is a mutation of the record
  that \<open>c[name]\<close> refers to.

  The walk reads \<open>collection[name]\<close> for names that come from \<open>layout\<close> properties, so
  it can reach an inherited function, and it puts its markers on what it reaches. The
  state of the walk is therefore the collection as a lookup sees it: the records under
  their names, followed by the inherited functions, which are values without a
  \<open>layout\<close> property. A record hides an inherited function of the same name.
\<close>

definition inheritedObject :: filerec where
  "inheritedObject =
     \<lparr>layout = Undefined, contents = [], data = Map.empty, seen = False, finished = False,
      children = None\<rparr>"

definition withInherited :: "files \<Rightarrow> files" where
  "withInherited c = c @ map (\<lambda>name. (name, inheritedObject)) inheritedFunctions"

fun modify :: "string \<Rightarrow> (filerec \<Rightarrow> filerec) \<Rightarrow> files \<Rightarrow> files" where
  "modify name g [] = []"
| "modify name g ((k, f) # c) = (if k = name then (k, g f) # c else (k, f) # modify name g c)"

text \<open>\<open>file.layout\<close> when it is truthy: the name of the parent.\<close>

definition parentOf :: "filerec \<Rightarrow> string option" where
  "parentOf f = (case layout f of LStr p \<Rightarrow> if p = [] then None else Some p | _ \<Rightarrow> None)"

text \<open>\<open>if (parent[children]) parent[children].push(name); else parent[children] = [name]\<close>\<close>

definition pushChild :: "string \<Rightarrow> filerec \<Rightarrow> filerec" where
  "pushChild name parent =
     parent\<lparr>children := Some (case children parent of Some ch \<Rightarrow> ch @ [name] | None \<Rightarrow> [name])\<rparr>"

text \<open>\<open>file[seen] = true\<close>\<close>

definition mark :: "string \<Rightarrow> files \<Rightarrow> files" where
  "mark name c = modify name (\<lambda>f. f\<lparr>seen := True\<rparr>) c"

text \<open>\<open>file[finished] = true; return delete file[seen]\<close>\<close>

definition finish :: "string \<Rightarrow> files \<Rightarrow> files" where
  "finish name c = modify name (\<lambda>f. f\<lparr>finished := True, seen := False\<rparr>) c"

definition unseen :: "files \<Rightarrow> nat" where
  "unseen c = length (filter (\<lambda>kf. \<not> seen (snd kf)) c)"

text \<open>
  \<open>createLayoutTree\<close>, on the state made of the collection (as a lookup sees it) and
  the \<open>roots\<close> array. The source reads \<open>collection[parentname]\<close> before the recursive
  call and uses the reference after it; no key is added or removed in between, so the
  lookup after the call finds the same value, and a parent that is \<open>undefined\<close> makes
  \<open>parent[children]\<close> a TypeError. The inner test \<open>if (!file[finished])\<close> is reached only
  when the marker is absent, so its branch is always taken.

  The name \<open>__proto__\<close> is the one lookup that this function does not follow. When no
  record has that name, \<open>collection[name]\<close> is \<open>Object.prototype\<close>, and the walk puts
  its markers on it. Every record and every function inherits them: the layouts not
  yet visited then read as finished and are left out of the tree, and every object
  shows the children array of the prototype, so that the recursion of \<open>renderLayouts\<close>
  has no end. The marker fields of this state do not express inherited markers; the
  result of such a walk is \<open>None\<close>, and so is the result of the layout stage.
\<close>

function createLayoutTree ::
  "string \<Rightarrow> files \<times> string list \<Rightarrow> (error + (files \<times> string list)) option" where
  "createLayoutTree name (c, roots) =
     (case map_of c name of
        None \<Rightarrow> if name = ''__proto__'' then None else Some (Inr (c, roots))
      | Some f \<Rightarrow>
          if finished f then Some (Inr (c, roots))
          else if seen f then Some (Inl (Circular name))
          else
            (case parentOf f of
               Some parentname \<Rightarrow>
                 (case createLayoutTree parentname (mark name c, roots) of
                    None \<Rightarrow> None
                  | Some (Inl e) \<Rightarrow> Some (Inl e)
                  | Some (Inr (c2, roots2)) \<Rightarrow>
                      (case map_of c2 parentname of
                         None \<Rightarrow> Some (Inl TypeError)
                       | Some parent \<Rightarrow>
                           Some (Inr (finish name (modify parentname (pushChild name) c2), roots2))))
             | None \<Rightarrow> Some (Inr (finish name (mark name c), roots @ [name]))))"
  by pat_completeness auto
termination
proof (relation "measure (\<lambda>(name, c, roots). unseen c)")
  show "wf (measure (\<lambda>(name, c, roots). unseen c))" by simp
next
  fix name :: string and c :: files and roots :: "string list" and f parentname
  assume look: "map_of c name = Some f" and ns: "\<not> seen f"
  have "\<And>f. map_of c name = Some f \<Longrightarrow> \<not> seen f \<Longrightarrow> unseen (mark name c) < unseen c"
  proof (induction c)
    case Nil
    then show ?case by simp
  next
    case (Cons kf c)
    then show ?case
      by (cases kf) (auto simp: unseen_def mark_def split: if_splits)
  qed
  from this [OF look ns]
  show "((parentname, mark name c, roots), (name, c, roots))
          \<in> measure (\<lambda>(name, c, roots). unseen c)"
    by simp
qed

text \<open>\<open>Object.keys(collection).forEach(filename => createLayoutTree(filename))\<close>\<close>

fun forEachCreate ::
  "string list \<Rightarrow> files \<times> string list \<Rightarrow> (error + (files \<times> string list)) option" where
  "forEachCreate [] s = Some (Inr s)"
| "forEachCreate (k # ks) s =
     (case createLayoutTree k s of
        None \<Rightarrow> None
      | Some (Inl e) \<Rightarrow> Some (Inl e)
      | Some (Inr s') \<Rightarrow> forEachCreate ks s')"

text \<open>
  The three symbols are created by the call of \<open>renderNestedLayouts\<close> itself, so no
  record and no inherited function carries one of them when the walk starts. The walk
  visits the names that \<open>Object.keys\<close> enumerates: the records.
\<close>

definition freshMarkers :: "files \<Rightarrow> files" where
  "freshMarkers c = map (\<lambda>(k, f). (k, f\<lparr>seen := False, finished := False, children := None\<rparr>)) c"

definition buildTree :: "files \<Rightarrow> (error + (files \<times> string list)) option" where
  "buildTree c = forEachCreate (map fst c) (freshMarkers (withInherited c), [])"

section \<open>Render engine (nested variant)\<close>

text \<open>
  The own enumerable string-keyed properties of a file record, as \<open>Object.assign\<close> copies
  them: the front matter, the \<open>layout\<close> property when the record has one, and
  \<open>contents\<close>.
\<close>

definition ownProps :: "filerec \<Rightarrow> locals" where
  "ownProps f =
     ((case layout f of
         Undefined \<Rightarrow> data f
       | LFalse \<Rightarrow> (data f)(''layout'' \<mapsto> JBool False)
       | LStr s \<Rightarrow> (data f)(''layout'' \<mapsto> JStr s))
      (''contents'' \<mapsto> JStr (contents f)))"

text \<open>\<open>Object.assign({}, metadata, file, { contents })\<close>\<close>

definition locals_nested :: "locals \<Rightarrow> filerec \<Rightarrow> locals" where
  "locals_nested metadata f = (metadata ++ ownProps f)(''contents'' \<mapsto> JStr (contents f))"

text \<open>
  \<open>render\<close> of the nested variant, on the records of \<open>files\<close> and of \<open>collection\<close>. The
  body runs inside a promise executor, at the call: an exception rejects the returned
  promise (\<open>Inl\<close>), otherwise the record under \<open>filename\<close> in \<open>files\<close> has its contents
  replaced. A file name without a record gives \<open>undefined\<close> or an inherited value, and
  reading its layout or its contents is a TypeError. A layout name without a record is
  reported as missing, unless it is an inherited name: the inherited value passes the
  test \<open>if (!layout)\<close> and has no \<open>contents\<close>. A transformer that is \<open>false\<close> or an
  inherited value has no \<open>render\<close> method.
\<close>

definition render ::
  "(string \<Rightarrow> transformer option) \<Rightarrow> locals \<Rightarrow> layoutval \<Rightarrow> string \<Rightarrow> files \<Rightarrow> files \<Rightarrow> error + files" where
  "render gt metadata d filename fs collection =
     (case map_of fs filename of
        None \<Rightarrow> Inl TypeError
      | Some f \<Rightarrow>
          (case getLayout f d of
             LStr layoutname \<Rightarrow>
               (case map_of collection layoutname of
                  None \<Rightarrow>
                    if inherited layoutname then Inl TypeError
                    else Inl (CannotFindLayout layoutname)
                | Some lay \<Rightarrow>
                    (case lookupEngine gt (extension layoutname) of
                       Engine transform \<Rightarrow>
                         (case transform (contents lay) (locals_nested metadata f) of
                            Inl e \<Rightarrow> Inl e
                          | Inr body \<Rightarrow> Inr (modify filename (\<lambda>f. f\<lparr>contents := body\<rparr>) fs))
                     | _ \<Rightarrow> Inl TypeError))
           | _ \<Rightarrow> Inl TypeError))"

datatype event = Rendered string "error option" | Done "error option"

text \<open>
  \<open>Promise.all(childlevel.map(child => render({ filename: child, files: collection, collection, ... })))\<close>:
  every child of the level is rendered, in the order of the array, each on the
  collection as the previous one left it.
\<close>

fun renderLevel ::
  "(string \<Rightarrow> transformer option) \<Rightarrow> locals \<Rightarrow> layoutval \<Rightarrow> string list \<Rightarrow> files \<Rightarrow> files \<times> event list" where
  "renderLevel gt metadata d [] c = (c, [])"
| "renderLevel gt metadata d (child # rest) c =
     (case render gt metadata d child c c of
        Inl e \<Rightarrow>
          (case renderLevel gt metadata d rest c of
             (c', evs) \<Rightarrow> (c', Rendered child (Some e) # evs))
      | Inr c1 \<Rightarrow>
          (case renderLevel gt metadata d rest c1 of
             (c', evs) \<Rightarrow> (c', Rendered child None # evs)))"

text \<open>The rejection of a \<open>Promise.all\<close>: the first failed render of the array.\<close>

fun firstError :: "event list \<Rightarrow> error option" where
  "firstError [] = None"
| "firstError (Rendered n (Some e) # evs) = Some e"
| "firstError (ev # evs) = firstError evs"

text \<open>The names of the files rendered, in the order of the calls of \<open>render\<close>.\<close>

fun rendered :: "event list \<Rightarrow> string list" where
  "rendered [] = []"
| "rendered (Rendered n r # evs) = n # rendered evs"
| "rendered (Done e # evs) = rendered evs"

text \<open>
  \<open>renderLayouts\<close> builds the promise chain \<open>tasks\<close>: one link per parent that has a
  children array, in the order of the recursion. The result is the list of those
  arrays. The collection is the state that the walk left. The recursion follows the
  children arrays, so the model carries fuel; \<open>None\<close> is fuel exhausted, \<open>Inl\<close> the
  exception of reading a marker of \<open>undefined\<close>. The prototype object, which the walk
  has not touched, has no children array.
\<close>

fun renderLayouts :: "nat \<Rightarrow> files \<Rightarrow> string list \<Rightarrow> (error + string list list) option" where
  "renderLayouts fuel c [] = Some (Inr [])"
| "renderLayouts fuel c (parent # rest) =
     (case map_of c parent of
        None \<Rightarrow>
          if parent = ''__proto__'' then renderLayouts fuel c rest
          else Some (Inl TypeError)
      | Some pf \<Rightarrow>
          (case children pf of
             None \<Rightarrow> renderLayouts fuel c rest
           | Some childlevel \<Rightarrow>
               (case fuel of
                  0 \<Rightarrow> None
                | Suc fuel' \<Rightarrow>
                    (case renderLayouts fuel' c childlevel of
                       None \<Rightarrow> None
                     | Some (Inl e) \<Rightarrow> Some (Inl e)
                     | Some (Inr below) \<Rightarrow>
                         (case renderLayouts fuel c rest of
                            None \<Rightarrow> None
                          | Some (Inl e) \<Rightarrow> Some (Inl e)
                          | Some (Inr after) \<Rightarrow> Some (Inr (childlevel # below @ after)))))))"

text \<open>Running the chain \<open>tasks\<close>: a rejected link skips every later link.\<close>

fun runTasks ::
  "(string \<Rightarrow> transformer option) \<Rightarrow> locals \<Rightarrow> layoutval \<Rightarrow> string list list \<Rightarrow> files \<Rightarrow> (error + files) \<times> event list" where
  "runTasks gt metadata d [] c = (Inr c, [])"
| "runTasks gt metadata d (level # levels) c =
     (case renderLevel gt metadata d level c of
        (c1, evs) \<Rightarrow>
          (case firstError evs of
             Some e \<Rightarrow> (Inl e, evs)
           | None \<Rightarrow>
               (case runTasks gt metadata d levels c1 of
                  (r, evs') \<Rightarrow> (r, evs @ evs'))))"

text \<open>
  The clean-up link at the end of the chain, over the names that \<open>Object.keys\<close>
  enumerates.
\<close>

definition cleanup :: "files \<Rightarrow> files" where
  "cleanup c = map (\<lambda>(k, f). (k, f\<lparr>children := None, finished := False, layout := Undefined\<rparr>)) c"

text \<open>The records of the collection \<open>c\<close> in a state of the walk: its first entries.\<close>

definition records :: "files \<Rightarrow> files \<Rightarrow> files" where
  "records c c1 = take (length c) c1"

text \<open>
  \<open>renderNestedLayouts\<close>. The renders read and change the records only, so they run on
  the records of the state. \<open>None\<close> is a stage that returns no schedule: a walk that has
  read \<open>__proto__\<close>, or fuel exhausted in \<open>renderLayouts\<close>. The lemma
  \<open>renderNestedLayouts_total\<close> below shows that the stage returns for every collection
  in which no layout refers to the prototype.
\<close>

definition renderNestedLayouts ::
  "(string \<Rightarrow> transformer option) \<Rightarrow> locals \<Rightarrow> layoutval \<Rightarrow> files \<Rightarrow> ((error + files) \<times> event list) option" where
  "renderNestedLayouts gt metadata d collection =
     (case buildTree collection of
        None \<Rightarrow> None
      | Some (Inl e) \<Rightarrow> Some (Inl e, [])
      | Some (Inr (c1, roots)) \<Rightarrow>
          (case renderLayouts (length c1) c1 roots of
             None \<Rightarrow> None
           | Some (Inl e) \<Rightarrow> Some (Inl e, [])
           | Some (Inr tasks) \<Rightarrow>
               (case runTasks gt metadata d tasks (records collection c1) of
                  (Inl e, evs) \<Rightarrow> Some (Inl e, evs)
                | (Inr c2, evs) \<Rightarrow> Some (Inr (cleanup c2), evs))))"

text \<open>
  The content files \<open>validFiles.map(filename => render({ filename, files, collection, ... }))\<close>
  of the nested variant, against the collection that the layout stage returned.
\<close>

fun renderContents ::
  "(string \<Rightarrow> transformer option) \<Rightarrow> locals \<Rightarrow> layoutval \<Rightarrow> files \<Rightarrow> string list \<Rightarrow> files \<Rightarrow> files \<times> event list" where
  "renderContents gt metadata d collection [] fs = (fs, [])"
| "renderContents gt metadata d collection (filename # rest) fs =
     (case render gt metadata d filename fs collection of
        Inl e \<Rightarrow>
          (case renderContents gt metadata d collection rest fs of
             (fs', evs) \<Rightarrow> (fs', Rendered filename (Some e) # evs))
      | Inr fs1 \<Rightarrow>
          (case renderContents gt metadata d collection rest fs1 of
             (fs', evs) \<Rightarrow> (fs', Rendered filename None # evs)))"

section \<open>Plugin (nested variant)\<close>

text \<open>
  The synchronous first half of the plugin, up to the test of \<open>validFiles.length\<close>:
  the calls of \<open>done\<close> made so far, the exception that left the plugin function (if
  any), the valid files and the new value of \<open>layoutsPrefix\<close>. After an invalid pattern
  the nested variant calls \<open>done\<close> and goes on to \<open>pattern.push\<close> with \<open>pattern\<close>
  undefined. An exception of \<open>multimatch\<close> leaves the plugin function as well.
\<close>

record selection =
  sel_events :: "event list"
  sel_thrown :: "error option"
  sel_valid :: "string list"
  sel_prefix :: string

definition select_nested ::
  "(string \<Rightarrow> string \<Rightarrow> bool) \<Rightarrow> (string \<Rightarrow> transformer option) \<Rightarrow> (string \<Rightarrow> bool) \<Rightarrow>
   string \<Rightarrow> string \<Rightarrow> settings \<Rightarrow> files \<Rightarrow> selection" where
  "select_nested mini gt isUtf8 relativePath layoutsPrefix st fs =
     (let pat = checkPattern (pattern st);
          ev0 = (if pat = None then [Done (Some InvalidPattern)] else []);
          prefix = setLayoutsPrefix_nested relativePath layoutsPrefix
      in case pat of
           None \<Rightarrow> \<lparr>sel_events = ev0, sel_thrown = Some TypeError, sel_valid = [], sel_prefix = prefix\<rparr>
         | Some ps \<Rightarrow>
             (case multimatch mini (map fst fs)
                     (Some (ps @ [PStr (CHR ''!'' # joinPath prefix ''**'')])) of
                Inl e \<Rightarrow> \<lparr>sel_events = ev0, sel_thrown = Some e, sel_valid = [], sel_prefix = prefix\<rparr>
              | Inr matchedFiles \<Rightarrow>
                  (case filterValid gt isUtf8 (dflt st) fs matchedFiles of
                     Inl e \<Rightarrow> \<lparr>sel_events = ev0, sel_thrown = Some e, sel_valid = [], sel_prefix = prefix\<rparr>
                   | Inr validFiles \<Rightarrow>
                       \<lparr>sel_events = ev0 @ (if validFiles = [] then [Done (Some NoFiles)] else []),
                        sel_thrown = None, sel_valid = validFiles, sel_prefix = prefix\<rparr>)))"

text \<open>
  The whole pass of the nested variant. \<open>collection\<close> is what the promise of
  \<open>getCollection\<close> resolves to: the layout records. When the layouts directory is
  inside the source they are the records that \<open>files\<close> holds under that directory,
  which the negated pattern keeps out of the content files; so the pass reads and
  changes a layout record through the collection only, and a content file through
  \<open>files\<close> only. The result lists, in order, every call of \<open>render\<close> with its outcome
  and every call of \<open>done\<close>; \<open>out_state\<close> is the state of the content files (the valid
  files) and of the collection when the chain reached \<open>done()\<close>. The promise of the
  content renders is not returned to the chain, so its rejection reaches no handler.
  \<open>None\<close> is the \<open>None\<close> of \<open>renderNestedLayouts\<close>.
\<close>

record outcome =
  events :: "event list"
  thrown :: "error option"
  out_state :: "(files \<times> files) option"

definition plugin_nested ::
  "(string \<Rightarrow> string \<Rightarrow> bool) \<Rightarrow> (string \<Rightarrow> transformer option) \<Rightarrow> (string \<Rightarrow> bool) \<Rightarrow> locals \<Rightarrow>
   string \<Rightarrow> string \<Rightarrow> settings \<Rightarrow> files \<Rightarrow> files \<Rightarrow> outcome option" where
  "plugin_nested mini gt isUtf8 metadata relativePath layoutsPrefix st fs collection =
     (let sel = select_nested mini gt isUtf8 relativePath layoutsPrefix st fs
      in case sel_thrown sel of
           Some e \<Rightarrow> Some \<lparr>events = sel_events sel, thrown = Some e, out_state = None\<rparr>
         | None \<Rightarrow>
             (case renderNestedLayouts gt metadata (dflt st) collection of
                None \<Rightarrow> None
              | Some (Inl e, evs) \<Rightarrow>
                  Some \<lparr>events = sel_events sel @ evs @ [Done (Some e)], thrown = None, out_state = None\<rparr>
              | Some (Inr c', evs) \<Rightarrow>
                  (case renderContents gt metadata (dflt st) c' (sel_valid sel) fs of
                     (fs', evs') \<Rightarrow>
                       Some \<lparr>events = sel_events sel @ evs @ evs' @ [Done None], thrown = None,
                             out_state =
                               Some (filter (\<lambda>kf. fst kf \<in> set (sel_valid sel)) fs', c')\<rparr>)))"

section \<open>Chain variant\<close>

text \<open>
  The first half of the chain variant's plugin. The negated pattern is pushed only when
  \<open>layoutsPrefix\<close> is not empty, and \<open>multimatch\<close> takes the \<open>undefined\<close> pattern as no
  pattern. With no valid file the plugin calls \<open>done\<close> with the error and renders
  nothing; otherwise \<open>sel_valid\<close> are the files handed to the render stage.
\<close>

definition select_chain ::
  "(string \<Rightarrow> string \<Rightarrow> bool) \<Rightarrow> (string \<Rightarrow> transformer option) \<Rightarrow> (string \<Rightarrow> bool) \<Rightarrow>
   string \<Rightarrow> string \<Rightarrow> settings \<Rightarrow> files \<Rightarrow> selection" where
  "select_chain mini gt isUtf8 relativePath layoutsPrefix st fs =
     (let pat = checkPattern (pattern st);
          ev0 = (if pat = None then [Done (Some InvalidPattern)] else []);
          prefix = setLayoutsPrefix_chain relativePath layoutsPrefix
      in if prefix \<noteq> [] \<and> pat = None
         then \<lparr>sel_events = ev0, sel_thrown = Some TypeError, sel_valid = [], sel_prefix = prefix\<rparr>
         else
           (case multimatch mini (map fst fs)
                   (if prefix \<noteq> []
                    then map_option (\<lambda>ps. ps @ [PStr (CHR ''!'' # joinPath prefix ''**'')]) pat
                    else pat) of
              Inl e \<Rightarrow> \<lparr>sel_events = ev0, sel_thrown = Some e, sel_valid = [], sel_prefix = prefix\<rparr>
            | Inr matchedFiles \<Rightarrow>
                (case filterValid gt isUtf8 (dflt st) fs matchedFiles of
                   Inl e \<Rightarrow> \<lparr>sel_events = ev0, sel_thrown = Some e, sel_valid = [], sel_prefix = prefix\<rparr>
                 | Inr validFiles \<Rightarrow>
                     \<lparr>sel_events = ev0 @ (if validFiles = [] then [Done (Some NoFiles)] else []),
                      sel_thrown = None, sel_valid = validFiles, sel_prefix = prefix\<rparr>)))"

text \<open>
  The \<open>do ... while\<close> loop of the chain variant's \<open>render\<close>: the names of the layouts from
  the file's own layout outwards. It follows the \<open>layout\<close> properties for as long as they
  are truthy, so it carries fuel; reading \<open>.layout\<close> of \<open>undefined\<close> is a TypeError, and
  an inherited value has no \<open>layout\<close>, which ends the loop.
\<close>

fun outerLayouts :: "nat \<Rightarrow> files \<Rightarrow> string \<Rightarrow> (error + string list) option" where
  "outerLayouts 0 collection layoutname = None"
| "outerLayouts (Suc fuel) collection layoutname =
     (case map_of collection layoutname of
        None \<Rightarrow>
          if inherited layoutname then Some (Inr [layoutname])
          else Some (Inl TypeError)
      | Some lf \<Rightarrow>
          (case parentOf lf of
             None \<Rightarrow> Some (Inr [layoutname])
           | Some p \<Rightarrow>
               (case outerLayouts fuel collection p of
                  None \<Rightarrow> None
                | Some (Inl e) \<Rightarrow> Some (Inl e)
                | Some (Inr ls) \<Rightarrow> Some (Inr (layoutname # ls)))))"

text \<open>
  \<open>for (let i = layouts.length - 1; i >= 0; i -= 1) Object.assign(locals, collection[layouts[i]])\<close>,
  with \<open>i\<close> the number of indices still to visit. A source that is \<open>undefined\<close> or an
  inherited value has no enumerable property of its own to copy.
\<close>

fun assignLayouts :: "files \<Rightarrow> string list \<Rightarrow> nat \<Rightarrow> locals \<Rightarrow> locals" where
  "assignLayouts collection layouts 0 locals = locals"
| "assignLayouts collection layouts (Suc i) locals =
     assignLayouts collection layouts i
       (locals ++ (case map_of collection (layouts ! i) of Some lf \<Rightarrow> ownProps lf | None \<Rightarrow> Map.empty))"

text \<open>
  The locals of the chain variant for one file, as the first link of its promise chain
  passes them to the transformer (\<open>contents\<close> is the file's current text).
\<close>

definition locals_chain :: "nat \<Rightarrow> locals \<Rightarrow> layoutval \<Rightarrow> files \<Rightarrow> filerec \<Rightarrow> (error + locals) option" where
  "locals_chain fuel metadata d collection f =
     (case getLayout f d of
        LStr layoutname \<Rightarrow>
          (case outerLayouts fuel collection layoutname of
             None \<Rightarrow> None
           | Some (Inl e) \<Rightarrow> Some (Inl e)
           | Some (Inr layouts) \<Rightarrow>
               Some (Inr ((assignLayouts collection layouts (length layouts) metadata ++ ownProps f)
                            (''contents'' \<mapsto> JStr (contents f)))))
      | _ \<Rightarrow> Some (Inl TypeError))"

text \<open>
  The promise chain of one file in the chain variant: one link per layout, from the
  file's own layout outwards. Every link looks the layout up, stores the file's current
  text under \<open>contents\<close> in the same \<open>locals\<close> object, and replaces the text by what
  the engine returns. An inherited value in the place of the layout or of the
  transformer makes the link fail with a TypeError.
\<close>

fun chainLinks ::
  "(string \<Rightarrow> transformer option) \<Rightarrow> files \<Rightarrow> locals \<Rightarrow> string list \<Rightarrow> string \<Rightarrow> error + string" where
  "chainLinks gt collection ls [] cur = Inr cur"
| "chainLinks gt collection ls (lname # rest) cur =
     (case map_of collection lname of
        None \<Rightarrow>
          if inherited lname then Inl TypeError
          else Inl (CannotFindLayout lname)
      | Some layoutfile \<Rightarrow>
          (case lookupEngine gt (extension lname) of
             Engine transform \<Rightarrow>
               (case transform (contents layoutfile) (ls(''contents'' \<mapsto> JStr cur)) of
                  Inl e \<Rightarrow> Inl e
                | Inr body \<Rightarrow> chainLinks gt collection (ls(''contents'' \<mapsto> JStr cur)) rest body)
           | _ \<Rightarrow> Inl TypeError))"

text \<open>\<open>render\<close> of the chain variant for one file: the new contents, or the exception.\<close>

definition render_chain ::
  "nat \<Rightarrow> (string \<Rightarrow> transformer option) \<Rightarrow> locals \<Rightarrow> layoutval \<Rightarrow> files \<Rightarrow> filerec \<Rightarrow> (error + string) option" where
  "render_chain fuel gt metadata d collection f =
     (case getLayout f d of
        LStr layoutname \<Rightarrow>
          (case outerLayouts fuel collection layoutname of
             None \<Rightarrow> None
           | Some (Inl e) \<Rightarrow> Some (Inl e)
           | Some (Inr layouts) \<Rightarrow>
               Some (chainLinks gt collection
                       (assignLayouts collection layouts (length layouts) metadata ++ ownProps f)
                       layouts (contents f)))
      | _ \<Rightarrow> Some (Inl TypeError))"

section \<open>Sample inputs\<close>

text \<open>A record as the host supplies it, without front matter, and an engine that wraps
  the text of the rendered file in the template.\<close>

definition plainFile :: "layoutval \<Rightarrow> string \<Rightarrow> filerec" where
  "plainFile l c = \<lparr>layout = l, contents = c, data = Map.empty, seen = False, finished = False, children = None\<rparr>"

definition wrapEngine :: transformer where
  "wrapEngine template ls =
     Inr (template @ ''('' @ (case ls ''contents'' of Some (JStr s) \<Rightarrow> s | _ \<Rightarrow> []) @ '')'')"

text \<open>Layout collections: a forest of two trees, a cycle of two layouts, a layout
  whose parent is missing, and both defects in either order.\<close>

definition sampleForest :: files where
  "sampleForest =
     [(''r1.hbs'', plainFile Undefined ''R1''), (''a.hbs'', plainFile (LStr ''r1.hbs'') ''A''),
      (''b.hbs'', plainFile (LStr ''a.hbs'') ''B''), (''r2.hbs'', plainFile Undefined ''R2''),
      (''c.hbs'', plainFile (LStr ''r2.hbs'') ''C'')]"

definition sampleCycle :: files where
  "sampleCycle = [(''a.hbs'', plainFile (LStr ''b.hbs'') ''A''), (''b.hbs'', plainFile (LStr ''a.hbs'') ''B'')]"

definition sampleDangling :: files where
  "sampleDangling = [(''x.hbs'', plainFile (LStr ''missing.hbs'') ''X'')]"

definition sampleDanglingThenCycle :: files where
  "sampleDanglingThenCycle =
     [(''x.hbs'', plainFile (LStr ''missing.hbs'') ''X''), (''a.hbs'', plainFile (LStr ''a.hbs'') ''A'')]"

definition sampleCycleThenDangling :: files where
  "sampleCycleThenDangling =
     [(''a.hbs'', plainFile (LStr ''a.hbs'') ''A''), (''x.hbs'', plainFile (LStr ''missing.hbs'') ''X'')]"

text \<open>A layout whose parent is the name of an inherited function, and no record.\<close>

definition sampleInherited :: files where
  "sampleInherited = [(''x.hbs'', plainFile (LStr ''constructor'') ''X'')]"

text \<open>An engine that fails on the file whose text is \<open>bad\<close> and wraps every other.\<close>

definition pickyEngine :: "string \<Rightarrow> transformer" where
  "pickyEngine bad template ls =
     (if ls ''contents'' = Some (JStr bad) then Inl (EngineError bad) else wrapEngine template ls)"

text \<open>A chain of two layouts and a content file, each with front matter.\<close>

definition sampleChain :: files where
  "sampleChain =
     [(''base.hbs'', (plainFile (LStr ''root.hbs'') ''B'')\<lparr>data := [''a'' \<mapsto> JNum 2, ''b'' \<mapsto> JNum 2]\<rparr>),
      (''root.hbs'',
         (plainFile Undefined ''R'')\<lparr>data := [''a'' \<mapsto> JNum 0, ''b'' \<mapsto> JNum 1, ''c'' \<mapsto> JNum 9]\<rparr>)]"

definition samplePage :: filerec where
  "samplePage = (plainFile (LStr ''base.hbs'') ''text'')\<lparr>data := [''a'' \<mapsto> JNum 3]\<rparr>"

text \<open>A matcher for the two patterns of the examples: \<open>**\<close> matches every path and
  \<open>layouts/**\<close> the paths under \<open>layouts/\<close>.\<close>

definition globMini :: "string \<Rightarrow> string \<Rightarrow> bool" where
  "globMini k p = (p = ''**'' \<or> (p = ''layouts/**'' \<and> take 8 k = ''layouts/''))"

text \<open>An engine that prints what kind of value the context has under a key.\<close>

definition probeEngine :: "string \<Rightarrow> transformer" where
  "probeEngine key template ls =
     Inr (case ls key of Some (JNum n) \<Rightarrow> ''number'' | Some v \<Rightarrow> ''other'' | None \<Rightarrow> ''undefined'')"

section \<open>The specification's notions\<close>

text \<open>
  The merged context in the specification's words: the shared metadata, overlaid
  oldest ancestor first by every layout of the ancestor chain, then by the node's own
  record, with the node's text under \<open>contents\<close>.
\<close>

text \<open>
  The parent relation of a layout collection: \<open>x\<close> has the parent \<open>p\<close> when the record
  under \<open>x\<close> has the truthy \<open>layout\<close> property \<open>p\<close>. A reference is dangling when it names
  no record of the collection; the collection is cyclic when some layout is its own
  ancestor.
\<close>

definition par :: "files \<Rightarrow> string \<Rightarrow> string option" where
  "par c x = (case map_of c x of Some f \<Rightarrow> parentOf f | None \<Rightarrow> None)"

definition parentRel :: "files \<Rightarrow> (string \<times> string) set" where
  "parentRel c = {(x, p). par c x = Some p}"

definition dangling :: "files \<Rightarrow> bool" where
  "dangling c = (\<exists>x p. par c x = Some p \<and> map_of c p = None)"

text \<open>
  A reference is missing when \<open>collection[p]\<close> is \<open>undefined\<close>: the name is neither a
  record nor inherited. A collection refers to the prototype when some layout names
  \<open>__proto__\<close> and no record has that name.
\<close>

definition missingParent :: "files \<Rightarrow> bool" where
  "missingParent c = (\<exists>x p. par c x = Some p \<and> map_of c p = None \<and> \<not> inherited p)"

definition protoRef :: "files \<Rightarrow> bool" where
  "protoRef c = ((\<exists>x. par c x = Some ''__proto__'') \<and> map_of c ''__proto__'' = None)"

text \<open>A \<open>pattern\<close> option that is a string or an array of strings.\<close>

fun stringPattern :: "patternopt \<Rightarrow> bool" where
  "stringPattern (PString p) = True"
| "stringPattern (PArray ps) = (PNotString \<notin> set ps)"
| "stringPattern POther = False"

definition cyclic :: "files \<Rightarrow> bool" where
  "cyclic c = (\<exists>x. (x, x) \<in> (parentRel c)\<^sup>+)"

text \<open>The state of the walk: the records marked finished or seen, and the children array
  of a record.\<close>

definition fin :: "files \<Rightarrow> string \<Rightarrow> bool" where
  "fin c x = (case map_of c x of Some f \<Rightarrow> finished f | None \<Rightarrow> False)"

definition sn :: "files \<Rightarrow> string \<Rightarrow> bool" where
  "sn c x = (case map_of c x of Some f \<Rightarrow> seen f | None \<Rightarrow> False)"

definition kids :: "files \<Rightarrow> string \<Rightarrow> string list" where
  "kids c p = (case map_of c p of Some f \<Rightarrow> (case children f of Some ch \<Rightarrow> ch | None \<Rightarrow> []) | None \<Rightarrow> [])"

text \<open>
  What the walk keeps true of the finished part of the collection: the children arrays
  hold exactly the finished layouts under their parent, \<open>roots\<close> holds exactly the
  finished layouts without a parent, and the finished layouts can be ranked so that a
  parent ranks below its children.
\<close>

definition treeInv :: "files \<Rightarrow> string list \<Rightarrow> bool" where
  "treeInv c roots \<longleftrightarrow>
     (\<forall>p x. x \<in> set (kids c p) \<longrightarrow> fin c x \<and> par c x = Some p) \<and>
     (\<forall>x p. fin c x \<and> par c x = Some p \<longrightarrow> fin c p \<and> x \<in> set (kids c p)) \<and>
     (\<forall>x. x \<in> set roots \<longleftrightarrow> fin c x \<and> par c x = None) \<and>
     (\<exists>r. (\<forall>x p. fin c x \<and> par c x = Some p \<longrightarrow> r p < r x) \<and>
          (\<forall>x. fin c x \<longrightarrow> r x < card {x. fin c x})) \<and>
     distinct roots \<and> (\<forall>p. distinct (kids c p))"

text \<open>What a successful call of \<open>createLayoutTree\<close> leaves of a record.\<close>

definition keeps :: "filerec \<Rightarrow> filerec \<Rightarrow> bool" where
  "keeps f f' \<longleftrightarrow>
     layout f' = layout f \<and> contents f' = contents f \<and> data f' = data f \<and> seen f' = seen f \<and>
     (finished f \<longrightarrow> finished f') \<and> (seen f \<and> \<not> finished f \<longrightarrow> \<not> finished f')"

definition frame :: "files \<Rightarrow> files \<Rightarrow> bool" where
  "frame c c' \<longleftrightarrow>
     map fst c' = map fst c \<and>
     (\<forall>k f. map_of c k = Some f \<longrightarrow> (\<exists>f'. map_of c' k = Some f' \<and> keeps f f'))"

text \<open>
  An order of rendering in which every group is the set of children of one layout, and
  that layout is in \<open>S\<close> or in an earlier group.
\<close>

fun parentFirst :: "files \<Rightarrow> string set \<Rightarrow> string list list \<Rightarrow> bool" where
  "parentFirst c S [] = True"
| "parentFirst c S (g # gs) =
     ((\<exists>p \<in> S. set g = {x. par c x = Some p}) \<and> parentFirst c (S \<union> set g) gs)"

text \<open>
  The renders of a pass stop at the first group with a failed render: of the events
  \<open>evs\<close>, one per render, those of the first \<open>k - 1\<close> groups hold no failure; when the
  events hold a failure the last group rendered has it, and when they hold none every
  group was rendered.
\<close>

definition stopsAtFailure :: "string list list \<Rightarrow> event list \<Rightarrow> nat \<Rightarrow> bool" where
  "stopsAtFailure tasks evs k \<longleftrightarrow>
     k \<le> length tasks \<and> rendered evs = concat (take k tasks) \<and>
     length evs = length (concat (take k tasks)) \<and>
     firstError (take (length (concat (take (k - 1) tasks))) evs) = None \<and>
     (case firstError evs of None \<Rightarrow> k = length tasks | Some e \<Rightarrow> 0 < k)"

text \<open>
  The order the specification describes: the number of ancestors of a layout is its
  level; every parentless layout is rendered, and no layout is rendered before one of a
  lower level.
\<close>

fun depthOf :: "nat \<Rightarrow> files \<Rightarrow> string \<Rightarrow> nat" where
  "depthOf 0 c x = 0"
| "depthOf (Suc n) c x = (case par c x of None \<Rightarrow> 0 | Some p \<Rightarrow> Suc (depthOf n c p))"

definition levelByLevel :: "files \<Rightarrow> string list \<Rightarrow> bool" where
  "levelByLevel c order \<longleftrightarrow>
     (\<forall>x \<in> set (map fst c). par c x = None \<longrightarrow> x \<in> set order) \<and>
     sorted (map (depthOf (length c) c) order)"

text \<open>What the renders of a pass leave of a collection: every record but for its
  contents.\<close>

definition rerendered :: "files \<Rightarrow> files \<Rightarrow> bool" where
  "rerendered c c' \<longleftrightarrow>
     map fst c' = map fst c \<and>
     (\<forall>k f. map_of c k = Some f \<longrightarrow> (\<exists>b. map_of c' k = Some (f\<lparr>contents := b\<rparr>)))"

text \<open>The ancestor chain of a layout: each name is followed by its parent, and the last
  one has none.\<close>

fun isChain :: "files \<Rightarrow> string list \<Rightarrow> bool" where
  "isChain c [] = False"
| "isChain c [n] = (case map_of c n of Some lf \<Rightarrow> parentOf lf = None | None \<Rightarrow> False)"
| "isChain c (n # p # ls) =
     ((case map_of c n of Some lf \<Rightarrow> parentOf lf = Some p | None \<Rightarrow> False) \<and> isChain c (p # ls))"

definition mergedContext :: "locals \<Rightarrow> filerec list \<Rightarrow> filerec \<Rightarrow> locals" where
  "mergedContext metadata ancestorsOldestFirst node =
     (foldl (++) metadata (map ownProps ancestorsOldestFirst) ++ ownProps node)
       (''contents'' \<mapsto> JStr (contents node))"

text \<open>
  A chain of renders in which every link is given the context \<open>ctx t\<close> of the current
  text \<open>t\<close>.
\<close>

fun specLinks ::
  "(string \<Rightarrow> transformer option) \<Rightarrow> files \<Rightarrow> (string \<Rightarrow> locals) \<Rightarrow> string list \<Rightarrow> string \<Rightarrow> error + string" where
  "specLinks gt collection ctx [] cur = Inr cur"
| "specLinks gt collection ctx (lname # rest) cur =
     (case map_of collection lname of
        None \<Rightarrow>
          if inherited lname then Inl TypeError
          else Inl (CannotFindLayout lname)
      | Some layoutfile \<Rightarrow>
          (case lookupEngine gt (extension lname) of
             Engine transform \<Rightarrow>
               (case transform (contents layoutfile) (ctx cur) of
                  Inl e \<Rightarrow> Inl e
                | Inr body \<Rightarrow> specLinks gt collection ctx rest body)
           | _ \<Rightarrow> Inl TypeError))"

section \<open>Properties of the selection\<close>

lemma resolver_stable:
  "resolver toTransformer (snd (getTransformer toTransformer cache e)) = resolver toTransformer cache"
  by (rule ext) (auto simp: resolver_def getTransformer_def split: option.splits)

lemma resolver_lookup:
  "resolver toTransformer cache
     = lookupEngine (\<lambda>e. case cache e of Some t \<Rightarrow> t | None \<Rightarrow> toTransformer e)"
  by (rule ext) (auto simp: resolver_def getTransformer_def lookupEngine_def split: option.splits)

lemma validate_total:
  "map_of fs k = Some f \<Longrightarrow> \<exists>b. validate gt isUtf8 d fs k = Inr b"
  by (auto simp: validate_def split: layoutval.splits)

lemma filterValid_Inr:
  "filterValid gt isUtf8 d fs ks = Inr vs \<Longrightarrow>
     vs = filter (\<lambda>k. validate gt isUtf8 d fs k = Inr True) ks"
  by (induction ks arbitrary: vs) (auto split: sum.splits if_splits)

lemma validate_True_iff:
  "validate gt isUtf8 d fs k = Inr True \<longleftrightarrow>
     (\<exists>f l. map_of fs k = Some f \<and> getLayout f d = LStr l \<and> l \<noteq> [] \<and> CHR ''.'' \<in> set l
            \<and> isUtf8 (contents f) \<and> truthyHandle (lookupEngine gt (extension l)))"
  by (auto simp: validate_def split: option.splits layoutval.splits)

text \<open>
  C6, as the code has it. \<open>getLayout\<close> returns the record's own \<open>layout\<close> when it is a
  non-empty name or the sentinel \<open>false\<close>; an absent or empty \<open>layout\<close> gives the
  configured default; and a file whose resolved layout is not a non-empty name is left
  out of the valid files.
\<close>

theorem getLayout_precedence:
  "(truthy (layout f) \<or> layout f = LFalse \<longrightarrow> getLayout f d = layout f) \<and>
   (layout f = Undefined \<or> layout f = LStr [] \<longrightarrow> getLayout f d = d) \<and>
   (map_of fs k = Some f \<and> \<not> truthy (getLayout f d) \<and>
    filterValid gt isUtf8 d fs ks = Inr vs \<longrightarrow> k \<notin> set vs)"
proof (intro conjI impI)
  assume "truthy (layout f) \<or> layout f = LFalse"
  then show "getLayout f d = layout f" by simp
next
  assume "layout f = Undefined \<or> layout f = LStr []"
  then show "getLayout f d = d" by auto
next
  assume a: "map_of fs k = Some f \<and> \<not> truthy (getLayout f d) \<and>
    filterValid gt isUtf8 d fs ks = Inr vs"
  then have "validate gt isUtf8 d fs k \<noteq> Inr True"
    unfolding validate_True_iff by (cases "getLayout f d") auto
  with a show "k \<notin> set vs"
    using filterValid_Inr [of gt isUtf8 d fs ks vs] by simp
qed

theorem getLayout_precedence_witness:
  "getLayout (plainFile LFalse ''x'') (LStr ''base.hbs'') = LFalse \<and>
   getLayout (plainFile (LStr ''page.hbs'') ''x'') (LStr ''base.hbs'') = LStr ''page.hbs'' \<and>
   getLayout (plainFile Undefined ''x'') (LStr ''base.hbs'') = LStr ''base.hbs'' \<and>
   filterValid (\<lambda>e. Some wrapEngine) (\<lambda>b. True) Undefined
      [(''a.md'', plainFile Undefined ''x'')] [''a.md''] = Inr [] \<and>
   filterValid (\<lambda>e. Some wrapEngine) (\<lambda>b. True) (LStr ''base.hbs'')
      [(''a.md'', plainFile LFalse ''x'')] [''a.md''] = Inr [] \<and>
   ''a.md'' \<notin> set ([] :: string list)"
  using
    getLayout_precedence [of "plainFile LFalse ''x''" "LStr ''base.hbs''"
      "[(''a.md'', plainFile LFalse ''x'')]" "''a.md''" "\<lambda>e. Some wrapEngine" "\<lambda>b. True"
      "[''a.md'']" "[]"]
    getLayout_precedence [of "plainFile (LStr ''page.hbs'') ''x''" "LStr ''base.hbs''"]
    getLayout_precedence [of "plainFile Undefined ''x''" "Undefined"
      "[(''a.md'', plainFile Undefined ''x'')]" "''a.md''" "\<lambda>e. Some wrapEngine" "\<lambda>b. True"
      "[''a.md'']" "[]"]
  by (simp add: plainFile_def validate_def)

text \<open>
  C6 as stated fails for a record whose \<open>layout\<close> property is present and empty: the
  property is not returned, the configured default is.
\<close>

theorem getLayout_explicit_counterexample:
  "layout (plainFile (LStr []) ''x'') \<noteq> Undefined \<and>
   getLayout (plainFile (LStr []) ''x'') (LStr ''base.hbs'') \<noteq> layout (plainFile (LStr []) ''x'')"
  by (simp add: plainFile_def)




lemma filterValid_total:
  "set ks \<subseteq> fst ` set fs \<Longrightarrow> \<exists>vs. filterValid gt isUtf8 d fs ks = Inr vs"
proof (induction ks)
  case Nil
  then show ?case by simp
next
  case (Cons k ks)
  then have "k \<in> fst ` set fs" by simp
  then obtain f where "map_of fs k = Some f"
    by (metis domD dom_map_of_conv_image_fst)
  then obtain b where "validate gt isUtf8 d fs k = Inr b"
    using validate_total by blast
  moreover obtain vs where "filterValid gt isUtf8 d fs ks = Inr vs"
    using Cons by auto
  ultimately show ?case by simp
qed

lemma matchStep_subset:
  "matchStep mini list ret pat = Inr ret' \<Longrightarrow> set ret' \<subseteq> set ret \<union> set list"
  by (cases pat) (auto split: if_splits)

lemma matchAll_subset:
  "matchAll mini list acc ps = Inr m \<Longrightarrow> set acc \<subseteq> set list \<Longrightarrow> set m \<subseteq> set list"
proof (induction ps arbitrary: acc)
  case Nil
  then show ?case by simp
next
  case (Cons p ps)
  from Cons.prems(1) obtain acc' where
    step: "matchStep mini list acc p = Inr acc'" and rest: "matchAll mini list acc' ps = Inr m"
    by (auto split: sum.splits)
  from matchStep_subset [OF step] Cons.prems(2) have "set acc' \<subseteq> set list" by auto
  from Cons.IH [OF rest this] show ?case .
qed

lemma multimatch_subset: "multimatch mini list pats = Inr m \<Longrightarrow> set m \<subseteq> set list"
  using matchAll_subset [of mini list "[]" _ m]
  by (auto simp: multimatch_def split: option.splits if_splits)

lemma matchAll_negated_last:
  "matchAll mini list acc (ps @ [PStr (CHR ''!'' # g)]) = Inr m \<Longrightarrow> k \<in> set m \<Longrightarrow>
     \<not> (mini k g \<and> k \<in> set list)"
proof (induction ps arbitrary: acc)
  case Nil
  then show ?case by auto
next
  case (Cons p ps)
  from Cons.prems(1) obtain acc' where
    "matchAll mini list acc' (ps @ [PStr (CHR ''!'' # g)]) = Inr m"
    by (auto split: sum.splits)
  from Cons.IH [OF this Cons.prems(2)] show ?case .
qed

lemma multimatch_negated_last:
  assumes "multimatch mini list (Some (ps @ [PStr (CHR ''!'' # g)])) = Inr m" and "k \<in> set m"
  shows "\<not> mini k g"
proof -
  from multimatch_subset [OF assms(1)] assms(2) have kl: "k \<in> set list" by blast
  then have "list \<noteq> []" by auto
  with assms(1) have "matchAll mini list [] (ps @ [PStr (CHR ''!'' # g)]) = Inr m"
    by (simp add: multimatch_def)
  from matchAll_negated_last [OF this assms(2)] kl show ?thesis by simp
qed

lemma matchAll_total:
  "PNotString \<notin> set ps \<Longrightarrow> \<exists>m. matchAll mini list acc ps = Inr m"
proof (induction ps arbitrary: acc)
  case Nil
  then show ?case by simp
next
  case (Cons p ps)
  then obtain q where "p = PStr q" by (cases p) auto
  then have "\<exists>acc'. matchStep mini list acc p = Inr acc'" by simp
  then obtain acc' where "matchStep mini list acc p = Inr acc'" by blast
  moreover from Cons obtain m where "matchAll mini list acc' ps = Inr m" by auto
  ultimately show ?case by simp
qed

lemma multimatch_total:
  "PNotString \<notin> set ps \<Longrightarrow> \<exists>m. multimatch mini list (Some ps) = Inr m"
  using matchAll_total [of ps mini list "[]"] by (auto simp: multimatch_def)

lemma select_nested_valid_iff:
  assumes "checkPattern (pattern st) = Some ps"
    and "multimatch mini (map fst fs)
           (Some (ps @ [PStr (CHR ''!'' # joinPath (setLayoutsPrefix_nested relativePath layoutsPrefix) ''**'')]))
         = Inr m"
  shows "k \<in> set (sel_valid (select_nested mini gt isUtf8 relativePath layoutsPrefix st fs)) \<longleftrightarrow>
           k \<in> set m \<and>
           (\<exists>f l. map_of fs k = Some f \<and> getLayout f (dflt st) = LStr l \<and> l \<noteq> [] \<and>
                  CHR ''.'' \<in> set l \<and> isUtf8 (contents f) \<and>
                  truthyHandle (lookupEngine gt (extension l)))"
proof -
  have "set m \<subseteq> fst ` set fs"
    using multimatch_subset [OF assms(2)] by auto
  then obtain vs where vs: "filterValid gt isUtf8 (dflt st) fs m = Inr vs"
    using filterValid_total by blast
  then have "sel_valid (select_nested mini gt isUtf8 relativePath layoutsPrefix st fs) = vs"
    using assms by (simp add: select_nested_def Let_def)
  with filterValid_Inr [OF vs] show ?thesis
    by (simp add: validate_True_iff)
qed

lemma select_chain_valid_iff:
  assumes "checkPattern (pattern st) = Some ps"
    and "multimatch mini (map fst fs)
           (Some (if setLayoutsPrefix_chain relativePath layoutsPrefix \<noteq> []
                  then ps @ [PStr (CHR ''!'' # joinPath (setLayoutsPrefix_chain relativePath layoutsPrefix) ''**'')]
                  else ps))
         = Inr m"
  shows "k \<in> set (sel_valid (select_chain mini gt isUtf8 relativePath layoutsPrefix st fs)) \<longleftrightarrow>
           k \<in> set m \<and>
           (\<exists>f l. map_of fs k = Some f \<and> getLayout f (dflt st) = LStr l \<and> l \<noteq> [] \<and>
                  CHR ''.'' \<in> set l \<and> isUtf8 (contents f) \<and>
                  truthyHandle (lookupEngine gt (extension l)))"
proof -
  have "set m \<subseteq> fst ` set fs"
    using multimatch_subset [OF assms(2)] by auto
  then obtain vs where vs: "filterValid gt isUtf8 (dflt st) fs m = Inr vs"
    using filterValid_total by blast
  then have "sel_valid (select_chain mini gt isUtf8 relativePath layoutsPrefix st fs) = vs"
    using assms by (auto simp: select_chain_def Let_def)
  with filterValid_Inr [OF vs] show ?thesis
    by (simp add: validate_True_iff)
qed

lemma select_nested_empty_prefix:
  assumes "setLayoutsPrefix_nested relativePath layoutsPrefix = []"
  shows "filter (\<lambda>k. mini k ''**'')
           (sel_valid (select_nested mini gt isUtf8 relativePath layoutsPrefix st fs)) = []"
proof (cases "checkPattern (pattern st)")
  case None
  then show ?thesis by (simp add: select_nested_def Let_def)
next
  case (Some ps)
  let ?mm = "multimatch mini (map fst fs)
     (Some (ps @ [PStr (CHR ''!'' # joinPath (setLayoutsPrefix_nested relativePath layoutsPrefix) ''**'')]))"
  show ?thesis
  proof (cases ?mm)
    case (Inl e)
    with Some show ?thesis by (simp add: select_nested_def Let_def)
  next
    case (Inr m)
    have "\<not> mini k ''**''"
      if "k \<in> set (sel_valid (select_nested mini gt isUtf8 relativePath layoutsPrefix st fs))" for k
    proof -
      from that have "k \<in> set m"
        unfolding select_nested_valid_iff [OF Some Inr] by simp
      moreover from Inr assms have
        "multimatch mini (map fst fs) (Some (ps @ [PStr (CHR ''!'' # ''**'')])) = Inr m"
        by (simp add: joinPath_def)
      ultimately show ?thesis by (rule multimatch_negated_last [rotated])
    qed
    then show ?thesis by (auto simp: filter_empty_conv)
  qed
qed

text \<open>
  C5 at the input where the nested variant departs from it: the layouts directory is
  outside the source directory, so \<open>layoutsPrefix\<close> stays empty and the pattern pushed is
  \<open>!**\<close>. The file \<open>index.md\<close> matches the pattern, is not under the layouts directory,
  names the layout \<open>base.hbs\<close>, is text and has an engine; the nested variant selects
  nothing and reports that there are no files, the chain variant selects the file.
\<close>

theorem nested_outside_layouts_select_nothing:
  "select_nested globMini (\<lambda>e. Some wrapEngine) (\<lambda>b. True) ''../layouts'' []
        \<lparr>pattern = PString ''**'', dflt = Undefined\<rparr>
        [(''index.md'', plainFile (LStr ''base.hbs'') ''text'')]
   = \<lparr>sel_events = [Done (Some NoFiles)], sel_thrown = None, sel_valid = [], sel_prefix = []\<rparr> \<and>
   select_chain globMini (\<lambda>e. Some wrapEngine) (\<lambda>b. True) ''../layouts'' []
        \<lparr>pattern = PString ''**'', dflt = Undefined\<rparr>
        [(''index.md'', plainFile (LStr ''base.hbs'') ''text'')]
   = \<lparr>sel_events = [], sel_thrown = None, sel_valid = [''index.md''], sel_prefix = []\<rparr>"
  by code_simp

section \<open>Properties of the pass\<close>

text \<open>
  C7 at an input where the nested variant departs from it. The layouts directory is
  \<open>layouts\<close> inside the source, so the collection holds the two layout files under their
  base names. No content file is valid, \<open>done\<close> is called with the no-files error, and
  the plugin goes on: the layout \<open>child.hbs\<close> is rendered and \<open>done\<close> is called a second
  time, without an error.
\<close>

theorem nested_no_files_still_renders:
  "map_option events
     (plugin_nested globMini (\<lambda>e. Some wrapEngine) (\<lambda>b. True) Map.empty ''layouts'' []
        \<lparr>pattern = PString ''**'', dflt = Undefined\<rparr>
        [(''index.md'', plainFile Undefined ''text''),
         (''layouts/parent.hbs'', plainFile Undefined ''P''),
         (''layouts/child.hbs'', plainFile (LStr ''parent.hbs'') ''C'')]
        [(''parent.hbs'', plainFile Undefined ''P''), (''child.hbs'', plainFile (LStr ''parent.hbs'') ''C'')])
   = Some [Done (Some NoFiles), Rendered ''child.hbs'' None, Done None]"
  by code_simp

text \<open>
  C4 at an input where the nested variant departs from it: the render of the valid
  content file \<open>index.md\<close> fails, because its layout is not in the collection, and
  \<open>done\<close> is called without an error.
\<close>

theorem nested_failed_render_reported_as_success:
  "map_option events
     (plugin_nested globMini (\<lambda>e. Some wrapEngine) (\<lambda>b. True) Map.empty ''layouts'' []
        \<lparr>pattern = PString ''**'', dflt = Undefined\<rparr>
        [(''index.md'', plainFile (LStr ''missing.hbs'') ''text''),
         (''layouts/base.hbs'', plainFile Undefined ''B'')]
        [(''base.hbs'', plainFile Undefined ''B'')])
   = Some [Rendered ''index.md'' (Some (CannotFindLayout ''missing.hbs'')), Done None]"
  by code_simp

section \<open>Properties of the merged context\<close>

lemma assignLayouts_foldl:
  "i \<le> length ls \<Longrightarrow>
     assignLayouts c ls i loc =
       foldl (++) loc
         (map (\<lambda>n. case map_of c n of Some lf \<Rightarrow> ownProps lf | None \<Rightarrow> Map.empty) (rev (take i ls)))"
proof (induction i arbitrary: loc)
  case 0
  then show ?case by simp
next
  case (Suc i)
  then have "take (Suc i) ls = take i ls @ [ls ! i]"
    by (simp add: take_Suc_conv_app_nth)
  with Suc show ?case by simp
qed

lemma isChain_resolved: "isChain c ls \<Longrightarrow> m \<in> set ls \<Longrightarrow> map_of c m \<noteq> None"
  by (induction c ls rule: isChain.induct) (auto split: option.splits)

text \<open>The loop of the chain variant returns the ancestor chain of a layout as soon as
  the fuel covers the length of the chain.\<close>

lemma outerLayouts_of_chain:
  "isChain c ls \<Longrightarrow> length ls \<le> fuel \<Longrightarrow> outerLayouts fuel c (hd ls) = Some (Inr ls)"
proof (induction fuel arbitrary: ls)
  case 0
  then show ?case by simp
next
  case (Suc fuel)
  show ?case
  proof (cases ls)
    case Nil
    with Suc.prems show ?thesis by simp
  next
    case (Cons n rest)
    show ?thesis
    proof (cases rest)
      case Nil
      with Cons Suc.prems(1) show ?thesis by (auto split: option.splits)
    next
      case (Cons p more)
      with \<open>ls = n # rest\<close> Suc.prems have ch: "isChain c (p # more)" and len: "length (p # more) \<le> fuel"
        by simp_all
      from Suc.IH [OF ch len] have "outerLayouts fuel c p = Some (Inr (p # more))" by simp
      with Cons \<open>ls = n # rest\<close> Suc.prems(1) show ?thesis by (auto split: option.splits)
    qed
  qed
qed

lemma isChain_functional: "isChain c (x # xs) \<Longrightarrow> isChain c (x # ys) \<Longrightarrow> xs = ys"
proof (induction xs arbitrary: x ys)
  case Nil
  then show ?case by (cases ys) (auto split: option.splits)
next
  case (Cons a xs)
  from Cons.prems obtain b ys' where ys: "ys = b # ys'"
    by (cases ys) (auto split: option.splits)
  with Cons.prems have "a = b" "isChain c (a # xs)" "isChain c (a # ys')"
    by (auto split: option.splits)
  with Cons.IH ys show ?case by simp
qed

lemma isChain_suffix: "isChain c (xs @ y # ys) \<Longrightarrow> isChain c (y # ys)"
proof (induction xs)
  case Nil
  then show ?case by simp
next
  case (Cons a xs)
  then have "isChain c (xs @ y # ys)" by (cases xs) simp_all
  with Cons.IH show ?case .
qed

lemma isChain_distinct: "isChain c ls \<Longrightarrow> distinct ls"
proof (rule ccontr)
  assume ch: "isChain c ls" and "\<not> distinct ls"
  then obtain xs ys zs y where ls: "ls = xs @ [y] @ ys @ [y] @ zs"
    using not_distinct_decomp by blast
  from ch ls have 1: "isChain c (y # ys @ y # zs)"
    using isChain_suffix [of c xs y "ys @ y # zs"] by simp
  then have 2: "isChain c (y # zs)"
    using isChain_suffix [of c "y # ys" y zs] by simp
  from isChain_functional [OF 1 2] have "length (ys @ y # zs) = length zs" by simp
  then show False by simp
qed

lemma isChain_length: "isChain c ls \<Longrightarrow> length ls \<le> length c"
proof -
  assume ch: "isChain c ls"
  have "set ls \<subseteq> fst ` set c"
  proof
    fix m assume "m \<in> set ls"
    with ch have "map_of c m \<noteq> None" by (rule isChain_resolved)
    then show "m \<in> fst ` set c" by (simp add: map_of_eq_None_iff)
  qed
  then have "card (set ls) \<le> card (fst ` set c)" by (simp add: card_mono)
  also have "\<dots> \<le> card (set c)" by (rule card_image_le) simp
  also have "\<dots> \<le> length c" by (rule card_length)
  finally show ?thesis using isChain_distinct [OF ch] by (simp add: distinct_card)
qed

lemma chainLinks_spec:
  "chainLinks gt c ls layouts cur = specLinks gt c (\<lambda>t. ls(''contents'' \<mapsto> JStr t)) layouts cur"
  by (induction layouts arbitrary: ls cur) (auto split: option.splits sum.splits handle.splits)

lemma mergedContext_text:
  "(foldl (++) metadata (map ownProps anc) ++ ownProps f)(''contents'' \<mapsto> JStr t)
     = mergedContext metadata anc (f\<lparr>contents := t\<rparr>)"
  by (cases "layout f") (simp_all add: mergedContext_def ownProps_def)

lemma assignLayouts_chain:
  assumes "isChain c ls"
  shows "assignLayouts c ls (length ls) metadata
           = foldl (++) metadata (map ownProps (rev (map (\<lambda>m. the (map_of c m)) ls)))"
proof -
  have "(case map_of c m of Some lf \<Rightarrow> ownProps lf | None \<Rightarrow> Map.empty) = ownProps (the (map_of c m))"
    if "m \<in> set ls" for m
    using isChain_resolved [OF assms that] by auto
  then have "map (\<lambda>n. case map_of c n of Some lf \<Rightarrow> ownProps lf | None \<Rightarrow> Map.empty) (rev ls)
          = map ownProps (rev (map (\<lambda>m. the (map_of c m)) ls))"
    by (simp add: rev_map)
  then show ?thesis
    using assignLayouts_foldl [of "length ls" ls c metadata] by simp
qed

lemma render_nested_context:
  assumes "map_of fs k = Some f" and "getLayout f d = LStr l" and "map_of coll l = Some lay"
    and "lookupEngine gt (extension l) = Engine t"
  shows "render gt metadata d k fs coll
           = (case t (contents lay) (mergedContext metadata [] f) of
                Inl e \<Rightarrow> Inl e
              | Inr body \<Rightarrow> Inr (modify k (\<lambda>f. f\<lparr>contents := body\<rparr>) fs))"
  using assms by (simp add: render_def locals_nested_def mergedContext_def)

text \<open>
  C3, as the code has it. In the chain variant, a file whose layout has an ancestor
  chain in the collection (every layout of the chain is a record, and the last one has
  no parent) is rendered with the merged context of the specification: the loop
  returns the chain whenever the fuel covers the size of the collection, the locals are
  the shared metadata overlaid oldest ancestor first by the records of the chain and
  then by the file's own record, and every link of the file's promise chain passes
  that context to the engine with the file's current text under \<open>contents\<close>. In the
  nested variant the engine is called with the shared metadata overlaid by the node's
  own record only: no ancestor is merged.
\<close>

theorem merged_context:
  "(getLayout f d = LStr n \<and> isChain c (n # rest) \<and> length c \<le> fuel \<longrightarrow>
      locals_chain fuel metadata d c f
        = Some (Inr (mergedContext metadata (rev (map (\<lambda>m. the (map_of c m)) (n # rest))) f)) \<and>
      render_chain fuel gt metadata d c f
        = Some (specLinks gt c
             (\<lambda>t. mergedContext metadata (rev (map (\<lambda>m. the (map_of c m)) (n # rest))) (f\<lparr>contents := t\<rparr>))
             (n # rest) (contents f))) \<and>
   (map_of fs k = Some g \<and> getLayout g d = LStr l \<and> map_of coll l = Some lay \<and>
    lookupEngine gt (extension l) = Engine t \<longrightarrow>
      render gt metadata d k fs coll
        = (case t (contents lay) (mergedContext metadata [] g) of
             Inl e \<Rightarrow> Inl e
           | Inr body \<Rightarrow> Inr (modify k (\<lambda>f. f\<lparr>contents := body\<rparr>) fs)))"
proof (intro conjI impI)
  assume a: "getLayout f d = LStr n \<and> isChain c (n # rest) \<and> length c \<le> fuel"
  define ls where "ls = n # rest"
  from a have ch: "isChain c ls" and gl: "getLayout f d = LStr n" by (simp_all add: ls_def)
  from isChain_length [OF ch] a have "length ls \<le> fuel" by simp
  from outerLayouts_of_chain [OF ch this]
  have ol: "outerLayouts fuel c n = Some (Inr ls)" by (simp add: ls_def)
  note al = assignLayouts_chain [OF ch, of metadata]
  have "locals_chain fuel metadata d c f
        = Some (Inr (mergedContext metadata (rev (map (\<lambda>m. the (map_of c m)) ls)) f))"
    by (simp only: locals_chain_def gl ol al mergedContext_def layoutval.case option.case sum.case)
  then show "locals_chain fuel metadata d c f
        = Some (Inr (mergedContext metadata (rev (map (\<lambda>m. the (map_of c m)) (n # rest))) f))"
    by (simp only: ls_def)
  have "render_chain fuel gt metadata d c f
        = Some (specLinks gt c
             (\<lambda>t. mergedContext metadata (rev (map (\<lambda>m. the (map_of c m)) ls)) (f\<lparr>contents := t\<rparr>))
             ls (contents f))"
    by (simp only: render_chain_def gl ol al chainLinks_spec mergedContext_text
        layoutval.case option.case sum.case)
  then show "render_chain fuel gt metadata d c f
        = Some (specLinks gt c
             (\<lambda>t. mergedContext metadata (rev (map (\<lambda>m. the (map_of c m)) (n # rest))) (f\<lparr>contents := t\<rparr>))
             (n # rest) (contents f))"
    by (simp only: ls_def)
next
  assume "map_of fs k = Some g \<and> getLayout g d = LStr l \<and> map_of coll l = Some lay \<and>
    lookupEngine gt (extension l) = Engine t"
  then show "render gt metadata d k fs coll
        = (case t (contents lay) (mergedContext metadata [] g) of
             Inl e \<Rightarrow> Inl e
           | Inr body \<Rightarrow> Inr (modify k (\<lambda>f. f\<lparr>contents := body\<rparr>) fs))"
    using render_nested_context by blast
qed

theorem merged_context_witness:
  "getLayout samplePage Undefined = LStr ''base.hbs'' \<and>
   isChain sampleChain [''base.hbs'', ''root.hbs''] \<and> length sampleChain \<le> 2 \<and>
   (\<exists>L. locals_chain 2 [''a'' \<mapsto> JNum 1] Undefined sampleChain samplePage = Some (Inr L) \<and>
        L = mergedContext [''a'' \<mapsto> JNum 1]
              [the (map_of sampleChain ''root.hbs''), the (map_of sampleChain ''base.hbs'')] samplePage \<and>
        L ''a'' = Some (JNum 3) \<and> L ''b'' = Some (JNum 2) \<and> L ''c'' = Some (JNum 9) \<and>
        L ''contents'' = Some (JStr ''text'')) \<and>
   render_chain 2 (\<lambda>e. Some (probeEngine ''b'')) [''a'' \<mapsto> JNum 1] Undefined sampleChain samplePage
     = Some (Inr ''number'') \<and>
   map_of [(''index.md'', samplePage)] ''index.md'' = Some samplePage \<and>
   map_of sampleChain ''base.hbs'' \<noteq> None \<and>
   lookupEngine (\<lambda>e. Some (probeEngine ''b'')) (extension ''base.hbs'') = Engine (probeEngine ''b'') \<and>
   render (\<lambda>e. Some (probeEngine ''b'')) [''a'' \<mapsto> JNum 1] Undefined ''index.md''
       [(''index.md'', samplePage)] sampleChain
     = Inr [(''index.md'', samplePage\<lparr>contents := ''undefined''\<rparr>)]"
proof -
  let ?md = "[''a'' \<mapsto> JNum 1]"
  let ?gt = "\<lambda>e. Some (probeEngine ''b'')"
  define base where "base = the (map_of sampleChain ''base.hbs'')"
  define root where "root = the (map_of sampleChain ''root.hbs'')"
  have h1: "getLayout samplePage Undefined = LStr ''base.hbs''"
    by (simp add: samplePage_def plainFile_def)
  have h2: "isChain sampleChain [''base.hbs'', ''root.hbs'']"
    by (simp add: sampleChain_def plainFile_def parentOf_def)
  have h3: "length sampleChain \<le> 2" by (simp add: sampleChain_def)
  have g1: "map_of [(''index.md'', samplePage)] ''index.md'' = Some samplePage" by simp
  have g3: "map_of sampleChain ''base.hbs'' = Some base"
    and g3': "map_of sampleChain ''root.hbs'' = Some root"
    by (simp_all add: sampleChain_def base_def root_def)
  have g4: "lookupEngine ?gt (extension ''base.hbs'') = Engine (probeEngine ''b'')"
    and g4': "lookupEngine ?gt (extension ''root.hbs'') = Engine (probeEngine ''b'')"
    by (simp_all add: lookupEngine_def inherited_def inheritedFunctions_def extension_def)
  note inst = merged_context [of samplePage Undefined "''base.hbs''" sampleChain "[''root.hbs'']" 2
      ?md ?gt "[(''index.md'', samplePage)]" "''index.md''" samplePage "''base.hbs''" sampleChain
      base "probeEngine ''b''"]
  from inst h1 h2 h3 have
    lc: "locals_chain 2 ?md Undefined sampleChain samplePage
           = Some (Inr (mergedContext ?md [root, base] samplePage))"
    and rc: "render_chain 2 ?gt ?md Undefined sampleChain samplePage
           = Some (specLinks ?gt sampleChain
                (\<lambda>t. mergedContext ?md [root, base] (samplePage\<lparr>contents := t\<rparr>))
                [''base.hbs'', ''root.hbs''] (contents samplePage))"
    by (simp_all add: base_def root_def)
  from inst h1 g1 g3 g4 have
    rn: "render ?gt ?md Undefined ''index.md'' [(''index.md'', samplePage)] sampleChain
           = (case probeEngine ''b'' (contents base) (mergedContext ?md [] samplePage) of
                Inl e \<Rightarrow> Inl e
              | Inr body \<Rightarrow> Inr (modify ''index.md'' (\<lambda>f. f\<lparr>contents := body\<rparr>) [(''index.md'', samplePage)]))"
    by simp
  have vals: "mergedContext ?md [root, base] samplePage ''a'' = Some (JNum 3)"
    "mergedContext ?md [root, base] samplePage ''b'' = Some (JNum 2)"
    "mergedContext ?md [root, base] samplePage ''c'' = Some (JNum 9)"
    "mergedContext ?md [root, base] samplePage ''contents'' = Some (JStr ''text'')"
    by (simp_all add: mergedContext_def ownProps_def sampleChain_def samplePage_def plainFile_def
        map_add_def base_def root_def)
  have b: "mergedContext ?md [root, base] (samplePage\<lparr>contents := t\<rparr>) ''b'' = Some (JNum 2)" for t
    by (simp add: mergedContext_def ownProps_def sampleChain_def samplePage_def plainFile_def
        map_add_def base_def root_def)
  have links: "specLinks ?gt sampleChain
                (\<lambda>t. mergedContext ?md [root, base] (samplePage\<lparr>contents := t\<rparr>))
                [''base.hbs'', ''root.hbs''] (contents samplePage) = Inr ''number''"
    by (simp add: g3 g3' g4 g4' b probeEngine_def)
  have nb: "mergedContext ?md [] samplePage ''b'' = None"
    by (simp add: mergedContext_def ownProps_def samplePage_def plainFile_def map_add_def)
  have rn': "render ?gt ?md Undefined ''index.md'' [(''index.md'', samplePage)] sampleChain
           = Inr [(''index.md'', samplePage\<lparr>contents := ''undefined''\<rparr>)]"
    using rn by (simp add: probeEngine_def nb)
  have g3n: "map_of sampleChain ''base.hbs'' \<noteq> None" using g3 by simp
  from h1 h2 h3 lc vals rc links g1 g3n g4 rn' show ?thesis
    by (simp add: base_def root_def)
qed

text \<open>
  C3 as stated fails in the nested variant at the specification's own example: the
  engine that renders \<open>index.md\<close> finds no \<open>b\<close> in its context, where the merged context
  has \<open>b = 2\<close>.
\<close>

theorem nested_context_counterexample:
  "map_sum id (map (\<lambda>(k, f). (k, contents f)))
     (render (\<lambda>e. Some (probeEngine ''b'')) [''a'' \<mapsto> JNum 1] Undefined ''index.md''
        [(''index.md'', (plainFile (LStr ''base.hbs'') ''text'')\<lparr>data := [''a'' \<mapsto> JNum 3]\<rparr>)]
        [(''base.hbs'', (plainFile Undefined ''B'')\<lparr>data := [''a'' \<mapsto> JNum 2, ''b'' \<mapsto> JNum 2]\<rparr>)])
   = Inr [(''index.md'', ''undefined'')] \<and>
   mergedContext [''a'' \<mapsto> JNum 1]
       [(plainFile Undefined ''B'')\<lparr>data := [''a'' \<mapsto> JNum 2, ''b'' \<mapsto> JNum 2]\<rparr>]
       ((plainFile (LStr ''base.hbs'') ''text'')\<lparr>data := [''a'' \<mapsto> JNum 3]\<rparr>) ''b'' = Some (JNum 2)"
  by (simp add: render_def plainFile_def probeEngine_def locals_nested_def ownProps_def
      mergedContext_def map_add_def lookupEngine_def inherited_def inheritedFunctions_def
      extension_def)

section \<open>The dependency tree builder\<close>

declare createLayoutTree.simps [simp del]

lemma map_of_modify:
  "map_of (modify n g c) k = (if k = n then map_option g (map_of c n) else map_of c k)"
  by (induction c) auto

lemma keys_modify: "map fst (modify n g c) = map fst c"
  by (induction c) auto

lemma map_of_mark:
  "map_of (mark n c) k = (if k = n then map_option (\<lambda>f. f\<lparr>seen := True\<rparr>) (map_of c n) else map_of c k)"
  by (simp add: mark_def map_of_modify)

lemma map_of_finish:
  "map_of (finish n c) k =
     (if k = n then map_option (\<lambda>f. f\<lparr>finished := True, seen := False\<rparr>) (map_of c n) else map_of c k)"
  by (simp add: finish_def map_of_modify)

lemma createLayoutTree_unfold:
  assumes "map_of c name = Some f" and "\<not> finished f" and "\<not> seen f" and "parentOf f = Some p"
  shows "createLayoutTree name (c, roots) =
           (case createLayoutTree p (mark name c, roots) of
              None \<Rightarrow> None
            | Some (Inl e) \<Rightarrow> Some (Inl e)
            | Some (Inr (c2, roots2)) \<Rightarrow>
                (case map_of c2 p of
                   None \<Rightarrow> Some (Inl TypeError)
                 | Some parent \<Rightarrow> Some (Inr (finish name (modify p (pushChild name) c2), roots2))))"
  using assms by (subst createLayoutTree.simps) simp

lemma createLayoutTree_simple:
  "map_of c name = None \<Longrightarrow>
     createLayoutTree name (c, roots) = (if name = ''__proto__'' then None else Some (Inr (c, roots)))"
  "map_of c name = Some f \<Longrightarrow> finished f \<Longrightarrow> createLayoutTree name (c, roots) = Some (Inr (c, roots))"
  "map_of c name = Some f \<Longrightarrow> \<not> finished f \<Longrightarrow> seen f \<Longrightarrow>
     createLayoutTree name (c, roots) = Some (Inl (Circular name))"
  "map_of c name = Some f \<Longrightarrow> \<not> finished f \<Longrightarrow> \<not> seen f \<Longrightarrow> parentOf f = None \<Longrightarrow>
     createLayoutTree name (c, roots) = Some (Inr (finish name (mark name c), roots @ [name]))"
  by (subst createLayoutTree.simps, simp)+

lemma createLayoutTree_Inr_cases:
  assumes "createLayoutTree name (c, roots) = Some (Inr (c', roots'))"
  obtains
    (absent) "map_of c name = None" "c' = c" "roots' = roots"
  | (already) f where "map_of c name = Some f" "finished f" "c' = c" "roots' = roots"
  | (root) f where "map_of c name = Some f" "\<not> finished f" "\<not> seen f" "parentOf f = None"
      "c' = finish name (mark name c)" "roots' = roots @ [name]"
  | (child) f p c2 pf where "map_of c name = Some f" "\<not> finished f" "\<not> seen f"
      "parentOf f = Some p" "createLayoutTree p (mark name c, roots) = Some (Inr (c2, roots'))"
      "map_of c2 p = Some pf" "c' = finish name (modify p (pushChild name) c2)"
proof (cases "map_of c name")
  case None
  with assms createLayoutTree_simple(1) [OF None, of roots] show ?thesis
    by (intro absent) (auto split: if_splits)
next
  case (Some f)
  show ?thesis
  proof (cases "finished f")
    case True
    with assms createLayoutTree_simple(2) [OF Some True, of roots] Some show ?thesis
      by (intro already [of f]) auto
  next
    case nf: False
    show ?thesis
    proof (cases "seen f")
      case True
      with assms createLayoutTree_simple(3) [OF Some nf True, of roots] show ?thesis by simp
    next
      case ns: False
      show ?thesis
      proof (cases "parentOf f")
        case None
        with assms createLayoutTree_simple(4) [OF Some nf ns None, of roots] Some nf ns show ?thesis
          by (intro root [of f]) auto
      next
        case (Some p)
        note unf = createLayoutTree_unfold [OF \<open>map_of c name = Some f\<close> nf ns Some, of roots]
        from assms unf obtain c2 roots2 where
          rec: "createLayoutTree p (mark name c, roots) = Some (Inr (c2, roots2))"
          by (cases "createLayoutTree p (mark name c, roots)") (auto split: sum.splits)
        from assms unf rec obtain pf where pf: "map_of c2 p = Some pf"
          by (cases "map_of c2 p") auto
        from assms unf rec pf have "c' = finish name (modify p (pushChild name) c2)" "roots' = roots2"
          by auto
        with rec pf \<open>map_of c name = Some f\<close> nf ns Some show ?thesis
          by (intro child [of f p c2 pf]) auto
      qed
    qed
  qed
qed

lemma createLayoutTree_Inl_cases:
  assumes "createLayoutTree name (c, roots) = Some (Inl e)"
  obtains
    (circular) f where "map_of c name = Some f" "\<not> finished f" "seen f" "e = Circular name"
  | (inner) f p where "map_of c name = Some f" "\<not> finished f" "\<not> seen f"
      "parentOf f = Some p" "createLayoutTree p (mark name c, roots) = Some (Inl e)"
  | (missing) f p c2 roots2 where "map_of c name = Some f" "\<not> finished f" "\<not> seen f"
      "parentOf f = Some p" "createLayoutTree p (mark name c, roots) = Some (Inr (c2, roots2))"
      "map_of c2 p = None" "e = TypeError"
proof (cases "map_of c name")
  case None
  with assms createLayoutTree_simple(1) [OF None, of roots] show ?thesis
    by (auto split: if_splits)
next
  case (Some f)
  show ?thesis
  proof (cases "finished f")
    case True
    with assms createLayoutTree_simple(2) [OF Some True, of roots] show ?thesis by simp
  next
    case nf: False
    show ?thesis
    proof (cases "seen f")
      case True
      with assms createLayoutTree_simple(3) [OF Some nf True, of roots] Some nf show ?thesis
        by (intro circular [of f]) auto
    next
      case ns: False
      show ?thesis
      proof (cases "parentOf f")
        case None
        with assms createLayoutTree_simple(4) [OF Some nf ns None, of roots] show ?thesis by simp
      next
        case (Some p)
        note unf = createLayoutTree_unfold [OF \<open>map_of c name = Some f\<close> nf ns Some, of roots]
        from assms unf obtain r where rec: "createLayoutTree p (mark name c, roots) = Some r"
          by (cases "createLayoutTree p (mark name c, roots)") auto
        show ?thesis
        proof (cases r)
          case (Inl e')
          with assms unf rec have "e' = e" by simp
          with Inl rec \<open>map_of c name = Some f\<close> nf ns Some show ?thesis
            by (intro inner [of f p]) auto
        next
          case (Inr s2)
          obtain c2 roots2 where s2: "s2 = (c2, roots2)" by (cases s2)
          from assms unf rec Inr s2 have "map_of c2 p = None" "e = TypeError"
            by (cases "map_of c2 p"; simp)+
          with Inr s2 rec \<open>map_of c name = Some f\<close> nf ns Some show ?thesis
            by (intro missing [of f p c2 roots2]) auto
        qed
      qed
    qed
  qed
qed


lemma keeps_refl: "keeps f f"
  by (simp add: keeps_def)

lemma frame_refl: "frame c c"
  by (simp add: frame_def keeps_refl)

lemma frame_dom: "frame c c' \<Longrightarrow> map_of c' k = None \<longleftrightarrow> map_of c k = None"
  by (metis frame_def map_of_eq_None_iff set_map)

lemma createLayoutTree_frame:
  "createLayoutTree name (c, roots) = Some (Inr (c', roots')) \<Longrightarrow>
     frame c c' \<and> (map_of c name \<noteq> None \<longrightarrow> fin c' name)"
proof (induction name "(c, roots)" arbitrary: c roots c' roots' rule: createLayoutTree.induct)
  case (1 name c roots)
  from "1.prems" show ?case
  proof (cases rule: createLayoutTree_Inr_cases)
    case absent
    then show ?thesis by (simp add: frame_refl)
  next
    case (already f)
    then show ?thesis by (simp add: frame_refl fin_def)
  next
    case (root f)
    have "frame c (finish name (mark name c))"
      unfolding frame_def
      using root(1-3)
      by (auto simp: finish_def mark_def keys_modify map_of_modify keeps_def)
    moreover have "fin (finish name (mark name c)) name"
      using root(1) by (simp add: fin_def map_of_finish map_of_mark)
    ultimately show ?thesis using root by simp
  next
    case (child f p c2 pf)
    from "1.hyps" [OF child(1) child(2) child(3) child(4) child(5)]
    have fr: "frame (mark name c) c2" by simp
    have keys: "map fst c' = map fst c"
      using fr child(7) by (simp add: frame_def finish_def mark_def keys_modify)
    have "\<exists>f'. map_of c' k = Some f' \<and> keeps g f'" if g: "map_of c k = Some g" for k g
    proof -
      let ?g1 = "if k = name then g\<lparr>seen := True\<rparr> else g"
      have "map_of (mark name c) k = Some ?g1"
        using g by (auto simp: map_of_mark)
      with fr obtain g2 where g2: "map_of c2 k = Some g2" "keeps ?g1 g2"
        unfolding frame_def by blast
      let ?g3 = "if k = p then pushChild name g2 else g2"
      have g3: "map_of (modify p (pushChild name) c2) k = Some ?g3"
        using g2 by (auto simp: map_of_modify)
      let ?g4 = "if k = name then ?g3\<lparr>finished := True, seen := False\<rparr> else ?g3"
      have "map_of c' k = Some ?g4"
        using g3 child(7) by (auto simp: map_of_finish)
      moreover have "keeps g ?g4"
        using g2(2) g child(1-3) by (auto simp: keeps_def pushChild_def)
      ultimately show ?thesis by blast
    qed
    with keys have "frame c c'" by (simp add: frame_def)
    moreover have "fin c' name"
    proof -
      have "map_of (mark name c) name = Some (f\<lparr>seen := True\<rparr>)"
        using child(1) by (simp add: map_of_mark)
      with fr obtain g2 where "map_of c2 name = Some g2"
        unfolding frame_def by blast
      then show ?thesis
        using child(7) by (auto simp: fin_def map_of_finish map_of_modify)
    qed
    ultimately show ?thesis by simp
  qed
qed


text \<open>What the walk finishes: the name it is given, and parents.\<close>

lemma createLayoutTree_touched:
  "createLayoutTree name (c, roots) = Some (Inr (c', roots')) \<Longrightarrow> fin c' x \<Longrightarrow>
     fin c x \<or> x = name \<or> (\<exists>y. par c y = Some x)"
proof (induction name "(c, roots)" arbitrary: c roots c' roots' rule: createLayoutTree.induct)
  case (1 name c roots)
  from "1.prems"(1) show ?case
  proof (cases rule: createLayoutTree_Inr_cases)
    case absent
    with "1.prems"(2) show ?thesis by simp
  next
    case (already f)
    with "1.prems"(2) show ?thesis by simp
  next
    case (root f)
    with "1.prems"(2) show ?thesis
      by (auto simp: fin_def map_of_finish map_of_mark split: if_splits option.splits)
  next
    case (child f p c2 pf)
    show ?thesis
    proof (cases "x = name")
      case True
      then show ?thesis by simp
    next
      case False
      with "1.prems"(2) child(7) have "fin c2 x"
        by (auto simp: fin_def map_of_finish map_of_modify pushChild_def split: if_splits option.splits)
      from "1.hyps" [OF child(1) child(2) child(3) child(4) child(5) this]
      have "fin (mark name c) x \<or> x = p \<or> (\<exists>y. par (mark name c) y = Some x)" .
      moreover have "par c name = Some p" using child(1,4) by (simp add: par_def)
      moreover have "fin (mark name c) x \<longleftrightarrow> fin c x"
        by (auto simp: fin_def map_of_mark split: option.splits)
      moreover have "par (mark name c) = par c"
        by (rule ext) (auto simp: par_def map_of_mark parentOf_def split: option.splits)
      ultimately show ?thesis by auto
    qed
  qed
qed

lemma par_mark: "par (mark n c) = par c"
  by (rule ext) (auto simp: par_def map_of_mark parentOf_def split: option.splits)

lemma par_finish: "par (finish n c) = par c"
  by (rule ext) (auto simp: par_def map_of_finish parentOf_def split: option.splits)

lemma par_push: "par (modify p (pushChild n) c) = par c"
  by (rule ext) (auto simp: par_def map_of_modify parentOf_def pushChild_def split: option.splits)

lemma par_frame: "frame c c' \<Longrightarrow> par c' = par c"
proof (rule ext)
  fix x
  assume fr: "frame c c'"
  show "par c' x = par c x"
  proof (cases "map_of c x")
    case None
    with frame_dom [OF fr, of x] have "map_of c' x = None" by simp
    with None show ?thesis by (simp add: par_def)
  next
    case (Some f)
    with fr obtain f' where "map_of c' x = Some f'" "keeps f f'"
      unfolding frame_def by blast
    with Some show ?thesis by (simp add: par_def parentOf_def keeps_def)
  qed
qed

lemma fin_mark: "fin (mark n c) = fin c"
  by (rule ext) (auto simp: fin_def map_of_mark split: option.splits)

lemma kids_mark: "kids (mark n c) = kids c"
  by (rule ext) (auto simp: kids_def map_of_mark split: option.splits)

lemma fin_push: "fin (modify p (pushChild n) c) = fin c"
  by (rule ext) (auto simp: fin_def map_of_modify pushChild_def split: option.splits)

lemma kids_push:
  "map_of c p = Some pf \<Longrightarrow>
     kids (modify p (pushChild n) c) q = (if q = p then kids c p @ [n] else kids c q)"
  by (auto simp: kids_def map_of_modify pushChild_def split: option.splits)

lemma fin_finish:
  "map_of c n = Some f \<Longrightarrow> fin (finish n c) x \<longleftrightarrow> x = n \<or> fin c x"
  by (auto simp: fin_def map_of_finish split: option.splits)

lemma kids_finish: "kids (finish n c) = kids c"
  by (rule ext) (auto simp: kids_def map_of_finish split: option.splits)

lemma treeInv_mark: "treeInv (mark n c) roots \<longleftrightarrow> treeInv c roots"
  by (simp add: treeInv_def par_mark fin_mark kids_mark)

lemma finite_fin: "finite {x. fin c x}"
proof (rule finite_subset)
  show "{x. fin c x} \<subseteq> dom (map_of c)"
    by (auto simp: fin_def split: option.splits)
  show "finite (dom (map_of c))" by (rule finite_dom_map_of)
qed

lemma treeInv_root:
  assumes inv: "treeInv c roots" and f: "map_of c n = Some f"
    and nf: "\<not> fin c n" and np: "par c n = None"
  shows "treeInv (finish n c) (roots @ [n])"
proof -
  let ?c = "finish n c"
  have F: "\<And>x. fin ?c x \<longleftrightarrow> x = n \<or> fin c x" using fin_finish [OF f] .
  have P: "par ?c = par c" by (rule par_finish)
  have K: "kids ?c = kids c" by (rule kids_finish)
  from inv obtain r where
    i1: "\<forall>p x. x \<in> set (kids c p) \<longrightarrow> fin c x \<and> par c x = Some p" and
    i2: "\<forall>x p. fin c x \<and> par c x = Some p \<longrightarrow> fin c p \<and> x \<in> set (kids c p)" and
    i3: "\<forall>x. x \<in> set roots \<longleftrightarrow> fin c x \<and> par c x = None" and
    r1: "\<forall>x p. fin c x \<and> par c x = Some p \<longrightarrow> r p < r x" and
    r2: "\<forall>x. fin c x \<longrightarrow> r x < card {x. fin c x}" and
    d1: "distinct roots" and d2: "\<forall>p. distinct (kids c p)"
    unfolding treeInv_def by blast
  have card: "card {x. fin ?c x} = Suc (card {x. fin c x})"
  proof -
    have "{x. fin ?c x} = insert n {x. fin c x}" using F by auto
    then show ?thesis using nf finite_fin [of c] by simp
  qed
  have j1: "\<forall>p x. x \<in> set (kids ?c p) \<longrightarrow> fin ?c x \<and> par ?c x = Some p"
    using i1 by (simp add: F P K)
  have j2: "\<forall>x p. fin ?c x \<and> par ?c x = Some p \<longrightarrow> fin ?c p \<and> x \<in> set (kids ?c p)"
    using i2 np by (auto simp: F P K)
  have j3: "\<forall>x. x \<in> set (roots @ [n]) \<longleftrightarrow> fin ?c x \<and> par ?c x = None"
    using i3 np by (auto simp: F P)
  have j4: "\<exists>r'. (\<forall>x p. fin ?c x \<and> par ?c x = Some p \<longrightarrow> r' p < r' x) \<and>
          (\<forall>x. fin ?c x \<longrightarrow> r' x < card {x. fin ?c x})"
  proof (intro exI conjI allI impI)
    fix x p
    assume a: "fin ?c x \<and> par ?c x = Some p"
    then have "fin c x" "par c x = Some p" using np by (auto simp: F P)
    with i2 r1 nf have "p \<noteq> n" "x \<noteq> n" "r p < r x" by auto
    then show "(r(n := 0)) p < (r(n := 0)) x" by simp
  next
    fix x
    assume a: "fin ?c x"
    show "(r(n := 0)) x < card {x. fin ?c x}"
    proof (cases "x = n")
      case True
      then show ?thesis by (simp add: card)
    next
      case False
      with a have "fin c x" by (simp add: F)
      with r2 have "r x < card {x. fin c x}" by simp
      with False show ?thesis by (simp add: card)
    qed
  qed
  have j5: "distinct (roots @ [n])" using d1 i3 nf by auto
  have j6: "\<forall>p. distinct (kids ?c p)" using d2 by (simp add: K)
  show ?thesis unfolding treeInv_def using j1 j2 j3 j4 j5 j6 by blast
qed

lemma treeInv_child:
  assumes inv: "treeInv c roots" and f: "map_of c n = Some f"
    and nf: "\<not> fin c n" and np: "par c n = Some p" and pf: "map_of c p = Some pf"
    and fp: "fin c p"
  shows "treeInv (finish n (modify p (pushChild n) c)) roots"
proof -
  let ?c = "finish n (modify p (pushChild n) c)"
  have "map_of (modify p (pushChild n) c) n \<noteq> None"
    using f by (auto simp: map_of_modify)
  then obtain f3 where f3: "map_of (modify p (pushChild n) c) n = Some f3" by blast
  have F: "\<And>x. fin ?c x \<longleftrightarrow> x = n \<or> fin c x"
    using fin_finish [OF f3] by (simp add: fin_push)
  have P: "par ?c = par c" by (simp add: par_finish par_push)
  have K: "\<And>q. kids ?c q = (if q = p then kids c p @ [n] else kids c q)"
    by (simp add: kids_finish kids_push [OF pf])
  from inv obtain r where
    i1: "\<forall>p x. x \<in> set (kids c p) \<longrightarrow> fin c x \<and> par c x = Some p" and
    i2: "\<forall>x p. fin c x \<and> par c x = Some p \<longrightarrow> fin c p \<and> x \<in> set (kids c p)" and
    i3: "\<forall>x. x \<in> set roots \<longleftrightarrow> fin c x \<and> par c x = None" and
    r1: "\<forall>x p. fin c x \<and> par c x = Some p \<longrightarrow> r p < r x" and
    r2: "\<forall>x. fin c x \<longrightarrow> r x < card {x. fin c x}" and
    d1: "distinct roots" and d2: "\<forall>p. distinct (kids c p)"
    unfolding treeInv_def by blast
  have pn: "p \<noteq> n" using fp nf by auto
  have card: "card {x. fin ?c x} = Suc (card {x. fin c x})"
  proof -
    have "{x. fin ?c x} = insert n {x. fin c x}" using F by auto
    then show ?thesis using nf finite_fin [of c] by simp
  qed
  have j1: "\<forall>q x. x \<in> set (kids ?c q) \<longrightarrow> fin ?c x \<and> par ?c x = Some q"
    using i1 np by (auto simp: F P K)
  have j2: "\<forall>x q. fin ?c x \<and> par ?c x = Some q \<longrightarrow> fin ?c q \<and> x \<in> set (kids ?c q)"
    using i2 np fp by (auto simp: F P K)
  have j3: "\<forall>x. x \<in> set roots \<longleftrightarrow> fin ?c x \<and> par ?c x = None"
    using i3 np by (auto simp: F P)
  let ?r = "r(n := Suc (r p))"
  have j4: "\<exists>r'. (\<forall>x q. fin ?c x \<and> par ?c x = Some q \<longrightarrow> r' q < r' x) \<and>
          (\<forall>x. fin ?c x \<longrightarrow> r' x < card {x. fin ?c x})"
  proof (intro exI conjI allI impI)
    fix x q
    assume a: "fin ?c x \<and> par ?c x = Some q"
    show "?r q < ?r x"
    proof (cases "x = n")
      case True
      with a np have "q = p" by (simp add: P)
      with True pn show ?thesis by simp
    next
      case False
      with a have "fin c x" "par c x = Some q" by (auto simp: F P)
      with i2 r1 nf have "q \<noteq> n" "r q < r x" by auto
      with False show ?thesis by simp
    qed
  next
    fix x
    assume a: "fin ?c x"
    show "?r x < card {x. fin ?c x}"
    proof (cases "x = n")
      case True
      from r2 fp have "r p < card {x. fin c x}" by simp
      with True show ?thesis by (simp add: card)
    next
      case False
      with a have "fin c x" by (simp add: F)
      with r2 have "r x < card {x. fin c x}" by simp
      with False show ?thesis by (simp add: card)
    qed
  qed
  have j5: "\<forall>q. distinct (kids ?c q)"
    using d2 i1 nf by (auto simp: K)
  show ?thesis unfolding treeInv_def using j1 j2 j3 j4 d1 j5 by blast
qed


lemma createLayoutTree_inv:
  "treeInv c roots \<Longrightarrow> createLayoutTree name (c, roots) = Some (Inr (c', roots')) \<Longrightarrow>
     treeInv c' roots'"
proof (induction name "(c, roots)" arbitrary: c roots c' roots' rule: createLayoutTree.induct)
  case (1 name c roots)
  from "1.prems"(2) show ?case
  proof (cases rule: createLayoutTree_Inr_cases)
    case absent
    with "1.prems"(1) show ?thesis by simp
  next
    case (already f)
    with "1.prems"(1) show ?thesis by simp
  next
    case (root f)
    have "treeInv (mark name c) roots"
      using "1.prems"(1) by (simp add: treeInv_mark)
    moreover have "map_of (mark name c) name = Some (f\<lparr>seen := True\<rparr>)"
      using root(1) by (simp add: map_of_mark)
    moreover have "\<not> fin (mark name c) name"
      using root(1,2) by (simp add: fin_mark fin_def)
    moreover have "par (mark name c) name = None"
      using root(1,4) by (simp add: par_mark par_def)
    ultimately show ?thesis
      using root(5,6) treeInv_root by blast
  next
    case (child f p c2 pf)
    have inv1: "treeInv (mark name c) roots"
      using "1.prems"(1) by (simp add: treeInv_mark)
    from "1.hyps" [OF child(1) child(2) child(3) child(4) inv1 child(5)]
    have inv2: "treeInv c2 roots'" .
    from createLayoutTree_frame [OF child(5)]
    have fr: "frame (mark name c) c2" and fp0: "map_of (mark name c) p \<noteq> None \<longrightarrow> fin c2 p"
      by simp_all
    have "map_of (mark name c) name = Some (f\<lparr>seen := True\<rparr>)"
      using child(1) by (simp add: map_of_mark)
    with fr obtain g2 where g2: "map_of c2 name = Some g2" "keeps (f\<lparr>seen := True\<rparr>) g2"
      unfolding frame_def by blast
    have nf: "\<not> fin c2 name"
      using g2 child(2) by (simp add: fin_def keeps_def)
    have np: "par c2 name = Some p"
      using par_frame [OF fr] child(1,4) by (simp add: par_mark par_def)
    have fp: "fin c2 p"
      using fp0 frame_dom [OF fr, of p] child(6) by simp
    show ?thesis
      using treeInv_child [OF inv2 g2(1) nf np child(6) fp] child(7) by simp
  qed
qed

lemma keeps_trans: "keeps f g \<Longrightarrow> keeps g h \<Longrightarrow> keeps f h"
  by (auto simp: keeps_def)

lemma frame_trans:
  assumes ab: "frame a b" and bc: "frame b c"
  shows "frame a c"
proof -
  have "\<exists>h. map_of c k = Some h \<and> keeps f h" if "map_of a k = Some f" for k f
  proof -
    from ab that obtain g where g: "map_of b k = Some g" "keeps f g"
      unfolding frame_def by blast
    from bc g(1) obtain h where h: "map_of c k = Some h" "keeps g h"
      unfolding frame_def by blast
    from g(2) h show ?thesis using keeps_trans by blast
  qed
  moreover have "map fst c = map fst a"
    using ab bc by (simp add: frame_def)
  ultimately show ?thesis by (simp add: frame_def)
qed

lemma fin_frame:
  assumes fr: "frame c c'" and x: "fin c x"
  shows "fin c' x"
proof -
  from x obtain f where f: "map_of c x = Some f" "finished f"
    by (auto simp: fin_def split: option.splits)
  with fr obtain f' where "map_of c' x = Some f'" "keeps f f'"
    unfolding frame_def by blast
  with f(2) show ?thesis by (simp add: fin_def keeps_def)
qed

lemma sn_frame: "frame c c' \<Longrightarrow> sn c' = sn c"
proof (rule ext)
  fix x
  assume fr: "frame c c'"
  show "sn c' x = sn c x"
  proof (cases "map_of c x")
    case None
    with frame_dom [OF fr, of x] have "map_of c' x = None" by simp
    with None show ?thesis by (simp add: sn_def)
  next
    case (Some f)
    with fr obtain f' where "map_of c' x = Some f'" "keeps f f'"
      unfolding frame_def by blast
    with Some show ?thesis by (simp add: sn_def keeps_def)
  qed
qed

lemma forEachCreate_Inr:
  "treeInv c roots \<Longrightarrow> forEachCreate ks (c, roots) = Some (Inr (c', roots')) \<Longrightarrow>
     treeInv c' roots' \<and> frame c c' \<and> (\<forall>k \<in> set ks. map_of c k \<noteq> None \<longrightarrow> fin c' k)"
proof (induction ks arbitrary: c roots)
  case Nil
  then show ?case by (simp add: frame_refl)
next
  case (Cons k ks)
  from Cons.prems(2) obtain c1 roots1 where
    step: "createLayoutTree k (c, roots) = Some (Inr (c1, roots1))" and
    rest: "forEachCreate ks (c1, roots1) = Some (Inr (c', roots'))"
    by (auto split: option.splits sum.splits)
  from createLayoutTree_inv [OF Cons.prems(1) step] have inv1: "treeInv c1 roots1" .
  from createLayoutTree_frame [OF step]
  have fr1: "frame c c1" and fk: "map_of c k \<noteq> None \<longrightarrow> fin c1 k" by simp_all
  from Cons.IH [OF inv1 rest]
  have inv': "treeInv c' roots'" and fr2: "frame c1 c'"
    and fks: "\<forall>k \<in> set ks. map_of c1 k \<noteq> None \<longrightarrow> fin c' k" by simp_all
  have "\<forall>j \<in> set (k # ks). map_of c j \<noteq> None \<longrightarrow> fin c' j"
    using fk fks fin_frame [OF fr2] frame_dom [OF fr1] by auto
  with inv' frame_trans [OF fr1 fr2] show ?case by simp
qed

lemma forEachCreate_touched:
  "forEachCreate ks (c, roots) = Some (Inr (c', roots')) \<Longrightarrow> fin c' x \<Longrightarrow>
     fin c x \<or> x \<in> set ks \<or> (\<exists>y. par c y = Some x)"
proof (induction ks arbitrary: c roots)
  case Nil
  then show ?case by simp
next
  case (Cons k ks)
  from Cons.prems(1) obtain c1 roots1 where
    step: "createLayoutTree k (c, roots) = Some (Inr (c1, roots1))" and
    rest: "forEachCreate ks (c1, roots1) = Some (Inr (c', roots'))"
    by (auto split: option.splits sum.splits)
  from createLayoutTree_frame [OF step] have fr1: "frame c c1" by simp
  from Cons.IH [OF rest Cons.prems(2)]
  have "fin c1 x \<or> x \<in> set ks \<or> (\<exists>y. par c1 y = Some x)" .
  then show ?case
  proof (elim disjE)
    assume "fin c1 x"
    from createLayoutTree_touched [OF step this] show ?thesis by auto
  next
    assume "x \<in> set ks"
    then show ?thesis by simp
  next
    assume "\<exists>y. par c1 y = Some x"
    then show ?thesis by (simp add: par_frame [OF fr1])
  qed
qed

lemma map_of_freshMarkers:
  "map_of (freshMarkers c) k =
     map_option (\<lambda>f. f\<lparr>seen := False, finished := False, children := None\<rparr>) (map_of c k)"
  by (simp add: freshMarkers_def map_of_map)

lemma par_freshMarkers: "par (freshMarkers c) = par c"
  by (rule ext) (auto simp: par_def map_of_freshMarkers parentOf_def split: option.splits)

lemma treeInv_fresh: "treeInv (freshMarkers c) []"
proof -
  have "\<And>x. \<not> fin (freshMarkers c) x"
    by (auto simp: fin_def map_of_freshMarkers split: option.splits)
  moreover have "\<And>p. kids (freshMarkers c) p = []"
    by (auto simp: kids_def map_of_freshMarkers split: option.splits)
  ultimately show ?thesis by (simp add: treeInv_def)
qed

lemma sn_fresh: "\<not> sn (freshMarkers c) x"
  by (auto simp: sn_def map_of_freshMarkers split: option.splits)

text \<open>The collection as a lookup sees it.\<close>

lemma map_of_const:
  "map_of (map (\<lambda>name. (name, v)) names) k = (if k \<in> set names then Some v else None)"
  by (induction names) auto

lemma map_of_withInherited:
  "map_of (withInherited c) k =
     (case map_of c k of
        Some f \<Rightarrow> Some f
      | None \<Rightarrow> if k \<in> set inheritedFunctions then Some inheritedObject else None)"
proof -
  have "map_of (map (\<lambda>name. (name, inheritedObject)) inheritedFunctions) k
          = (if k \<in> set inheritedFunctions then Some inheritedObject else None)"
    by (rule map_of_const)
  then show ?thesis
    by (simp add: withInherited_def map_add_def split: option.splits)
qed

lemma par_withInherited: "par (withInherited c) = par c"
  by (rule ext)
     (auto simp: par_def map_of_withInherited parentOf_def inheritedObject_def split: option.splits)

lemma keys_withInherited: "map fst (withInherited c) = map fst c @ inheritedFunctions"
  by (simp add: withInherited_def comp_def)

lemma buildTree_Inr:
  assumes "buildTree c = Some (Inr (c', roots))"
  shows "treeInv c' roots" and "frame (freshMarkers (withInherited c)) c'" and "par c' = par c"
    and "\<And>k. map_of c k \<noteq> None \<Longrightarrow> fin c' k" and "\<And>k. \<not> sn c' k"
    and "\<And>k. map_of c' k = None \<longleftrightarrow> map_of (withInherited c) k = None"
    and "\<And>x. fin c' x \<Longrightarrow> map_of c x \<noteq> None \<or> (\<exists>y. par c y = Some x)"
proof -
  let ?u = "withInherited c"
  from assms have run: "forEachCreate (map fst c) (freshMarkers ?u, []) = Some (Inr (c', roots))"
    by (simp add: buildTree_def)
  from forEachCreate_Inr [OF treeInv_fresh run]
  have inv: "treeInv c' roots" and fr: "frame (freshMarkers ?u) c'"
    and all: "\<forall>k \<in> set (map fst c). map_of (freshMarkers ?u) k \<noteq> None \<longrightarrow> fin c' k"
    by simp_all
  show "treeInv c' roots" by (rule inv)
  show "frame (freshMarkers ?u) c'" by (rule fr)
  show "par c' = par c"
    using par_frame [OF fr] by (simp add: par_freshMarkers par_withInherited)
  show "fin c' k" if "map_of c k \<noteq> None" for k
  proof -
    from that have "k \<in> set (map fst c)"
      by (metis map_of_eq_None_iff set_map)
    with all have "map_of (freshMarkers ?u) k \<noteq> None \<longrightarrow> fin c' k" by blast
    moreover from that have "map_of ?u k \<noteq> None"
      by (auto simp: map_of_withInherited)
    ultimately show ?thesis by (simp add: map_of_freshMarkers)
  qed
  show "\<not> sn c' k" for k using sn_frame [OF fr] sn_fresh by simp
  show "map_of c' k = None \<longleftrightarrow> map_of ?u k = None" for k
    using frame_dom [OF fr, of k] by (simp add: map_of_freshMarkers)
  show "map_of c x \<noteq> None \<or> (\<exists>y. par c y = Some x)" if "fin c' x" for x
  proof -
    from forEachCreate_touched [OF run that]
    have "fin (freshMarkers ?u) x \<or> x \<in> set (map fst c) \<or> (\<exists>y. par (freshMarkers ?u) y = Some x)" .
    moreover have "\<not> fin (freshMarkers ?u) x"
      by (auto simp: fin_def map_of_freshMarkers split: option.splits)
    moreover have "x \<in> set (map fst c) \<longleftrightarrow> map_of c x \<noteq> None"
      by (simp add: map_of_eq_None_iff)
    ultimately show ?thesis by (simp add: par_freshMarkers par_withInherited)
  qed
qed

lemma rank_trancl:
  fixes r :: "'a \<Rightarrow> nat"
  assumes "(a, b) \<in> R\<^sup>+" and "\<And>x y. (x, y) \<in> R \<Longrightarrow> r y < r x"
  shows "r b < r a"
  using assms by (induction rule: trancl.induct) (auto intro: less_trans)

text \<open>A tree is built only of a collection in which every parent is a record or an
  inherited function, and no layout is its own ancestor.\<close>

lemma buildTree_Inr_sound:
  assumes "buildTree c = Some (Inr (c', roots))"
  shows "\<not> dangling (withInherited c) \<and> \<not> cyclic c"
proof -
  note bt = buildTree_Inr [OF assms]
  from bt(1) obtain r :: "string \<Rightarrow> nat" where
    i2: "\<forall>x p. fin c' x \<and> par c' x = Some p \<longrightarrow> fin c' p \<and> x \<in> set (kids c' p)" and
    r1: "\<forall>x p. fin c' x \<and> par c' x = Some p \<longrightarrow> r p < r x"
    unfolding treeInv_def by blast
  have edge: "fin c' x \<and> fin c' p \<and> r p < r x" if "par c x = Some p" for x p
  proof -
    from that have "map_of c x \<noteq> None" by (auto simp: par_def split: option.splits)
    then have fx: "fin c' x" by (rule bt(4))
    have px: "par c' x = Some p" by (simp only: bt(3) that)
    from i2 r1 fx px show ?thesis by blast
  qed
  have "\<not> dangling (withInherited c)"
  proof
    assume "dangling (withInherited c)"
    then obtain x p where xp: "par c x = Some p" "map_of (withInherited c) p = None"
      unfolding dangling_def par_withInherited by blast
    from edge [OF xp(1)] have "fin c' p" by simp
    then have "map_of c' p \<noteq> None" by (auto simp: fin_def split: option.splits)
    with bt(6) [of p] xp(2) show False by simp
  qed
  moreover have "\<not> cyclic c"
  proof
    assume "cyclic c"
    then obtain x where "(x, x) \<in> (parentRel c)\<^sup>+" unfolding cyclic_def by blast
    then have "r x < r x"
      by (rule rank_trancl) (use edge in \<open>auto simp: parentRel_def\<close>)
    then show False by simp
  qed
  ultimately show ?thesis by simp
qed


lemma parentRel_mark: "parentRel (mark n c) = parentRel c"
  by (simp add: parentRel_def par_mark)

lemma dom_mark: "map_of (mark n c) k = None \<longleftrightarrow> map_of c k = None"
  by (simp add: map_of_mark)

lemma dangling_mark: "dangling (mark n c) \<longleftrightarrow> dangling c"
  by (simp add: dangling_def par_mark dom_mark)

lemma dangling_frame: "frame c c' \<Longrightarrow> dangling c' \<longleftrightarrow> dangling c"
  using par_frame [of c c'] frame_dom [of c c'] by (simp add: dangling_def)

lemma parentRel_frame: "frame c c' \<Longrightarrow> parentRel c' = parentRel c"
  using par_frame [of c c'] by (simp add: parentRel_def)

lemma createLayoutTree_Inl:
  "createLayoutTree name (c, roots) = Some (Inl e) \<Longrightarrow>
   \<forall>x. sn c x \<and> \<not> fin c x \<longrightarrow> (x, name) \<in> (parentRel c)\<^sup>+ \<Longrightarrow>
     (e = TypeError \<and> dangling c) \<or> (\<exists>n. e = Circular n \<and> (n, n) \<in> (parentRel c)\<^sup>+)"
proof (induction name "(c, roots)" arbitrary: c roots rule: createLayoutTree.induct)
  case (1 name c roots)
  from "1.prems"(1) show ?case
  proof (cases rule: createLayoutTree_Inl_cases)
    case (circular f)
    then have "sn c name \<and> \<not> fin c name" by (simp add: sn_def fin_def)
    with "1.prems"(2) circular(4) show ?thesis by blast
  next
    case (inner f p)
    have edge: "(name, p) \<in> parentRel c"
      using inner(1,4) by (simp add: parentRel_def par_def)
    have "\<forall>x. sn (mark name c) x \<and> \<not> fin (mark name c) x \<longrightarrow> (x, p) \<in> (parentRel (mark name c))\<^sup>+"
    proof (intro allI impI)
      fix x
      assume a: "sn (mark name c) x \<and> \<not> fin (mark name c) x"
      show "(x, p) \<in> (parentRel (mark name c))\<^sup>+"
      proof (cases "x = name")
        case True
        with edge show ?thesis by (simp add: parentRel_mark)
      next
        case False
        with a have "sn c x \<and> \<not> fin c x"
          by (simp add: sn_def fin_def map_of_mark)
        with "1.prems"(2) have "(x, name) \<in> (parentRel c)\<^sup>+" by blast
        with edge show ?thesis by (simp add: parentRel_mark trancl_into_trancl)
      qed
    qed
    from "1.hyps" [OF inner(1) inner(2) inner(3) inner(4) inner(5) this]
    show ?thesis by (simp add: parentRel_mark dangling_mark)
  next
    case (missing f p c2 roots2)
    from createLayoutTree_frame [OF missing(5)] have fr: "frame (mark name c) c2" by simp
    from frame_dom [OF fr, of p] missing(6) have "map_of c p = None"
      by (simp add: dom_mark)
    moreover have "par c name = Some p" using missing(1,4) by (simp add: par_def)
    ultimately have "dangling c" unfolding dangling_def by blast
    with missing(7) show ?thesis by simp
  qed
qed

lemma forEachCreate_Inl:
  "\<forall>x. \<not> sn c x \<Longrightarrow> forEachCreate ks (c, roots) = Some (Inl e) \<Longrightarrow>
     (e = TypeError \<and> dangling c) \<or> (\<exists>n. e = Circular n \<and> (n, n) \<in> (parentRel c)\<^sup>+)"
proof (induction ks arbitrary: c roots)
  case Nil
  then show ?case by simp
next
  case (Cons k ks)
  from Cons.prems(2) consider
    (here) "createLayoutTree k (c, roots) = Some (Inl e)"
  | (later) c1 roots1 where "createLayoutTree k (c, roots) = Some (Inr (c1, roots1))"
      "forEachCreate ks (c1, roots1) = Some (Inl e)"
    by (auto split: option.splits sum.splits)
  then show ?case
  proof cases
    case here
    with Cons.prems(1) createLayoutTree_Inl [of k c roots e] show ?thesis by simp
  next
    case (later c1 roots1)
    from createLayoutTree_frame [OF later(1)] have fr: "frame c c1" by simp
    have "\<forall>x. \<not> sn c1 x" using sn_frame [OF fr] Cons.prems(1) by simp
    from Cons.IH [OF this later(2)] show ?thesis
      by (simp add: dangling_frame [OF fr] parentRel_frame [OF fr])
  qed
qed

lemma dangling_fresh: "dangling (freshMarkers c) \<longleftrightarrow> dangling c"
  by (simp add: dangling_def par_freshMarkers map_of_freshMarkers)

lemma buildTree_Inl_sound:
  assumes "buildTree c = Some (Inl e)"
  shows "(e = TypeError \<and> dangling (withInherited c)) \<or>
         (\<exists>n. e = Circular n \<and> (n, n) \<in> (parentRel c)\<^sup>+)"
proof -
  have "\<forall>x. \<not> sn (freshMarkers (withInherited c)) x" by (simp add: sn_fresh)
  from forEachCreate_Inl [OF this] assms
  show ?thesis
    by (simp add: buildTree_def dangling_fresh parentRel_def par_freshMarkers par_withInherited)
qed

text \<open>The walk stays in the model as long as it does not read \<open>__proto__\<close>.\<close>

lemma protoRef_mark: "protoRef (mark n c) \<longleftrightarrow> protoRef c"
  by (simp add: protoRef_def par_mark dom_mark)

lemma protoRef_frame: "frame c c' \<Longrightarrow> protoRef c' \<longleftrightarrow> protoRef c"
  using par_frame [of c c'] frame_dom [of c c'] by (simp add: protoRef_def)

lemma createLayoutTree_defined:
  "\<not> protoRef c \<Longrightarrow> map_of c name \<noteq> None \<or> name \<noteq> ''__proto__'' \<Longrightarrow>
     createLayoutTree name (c, roots) \<noteq> None"
proof (induction name "(c, roots)" arbitrary: c roots rule: createLayoutTree.induct)
  case (1 name c roots)
  show ?case
  proof (cases "map_of c name")
    case None
    with "1.prems"(2) show ?thesis by (subst createLayoutTree.simps) simp
  next
    case (Some f)
    show ?thesis
    proof (cases "\<not> finished f \<and> \<not> seen f \<and> parentOf f \<noteq> None")
      case False
      with Some show ?thesis by (subst createLayoutTree.simps) (auto split: option.splits)
    next
      case True
      then obtain p where p: "parentOf f = Some p" by auto
      have pp: "par c name = Some p" using Some p by (simp add: par_def)
      have "map_of (mark name c) p \<noteq> None \<or> p \<noteq> ''__proto__''"
      proof (cases "p = ''__proto__''")
        case True
        with pp have "\<exists>x. par c x = Some ''__proto__''" by auto
        with "1.prems"(1) have "map_of c ''__proto__'' \<noteq> None"
          by (simp add: protoRef_def)
        with True show ?thesis by (simp add: dom_mark)
      next
        case False
        then show ?thesis by simp
      qed
      moreover have "\<not> protoRef (mark name c)" using "1.prems"(1) by (simp add: protoRef_mark)
      ultimately have "createLayoutTree p (mark name c, roots) \<noteq> None"
        using "1.hyps" [of f p] Some True p by simp
      with Some True p show ?thesis
        by (subst createLayoutTree.simps) (auto split: option.splits sum.splits)
    qed
  qed
qed

lemma forEachCreate_defined:
  "\<not> protoRef c \<Longrightarrow> \<forall>k \<in> set ks. map_of c k \<noteq> None \<Longrightarrow> forEachCreate ks (c, roots) \<noteq> None"
proof (induction ks arbitrary: c roots)
  case Nil
  then show ?case by simp
next
  case (Cons k ks)
  from Cons.prems have "createLayoutTree k (c, roots) \<noteq> None"
    using createLayoutTree_defined [of c k roots] by simp
  then obtain r where r: "createLayoutTree k (c, roots) = Some r" by blast
  show ?case
  proof (cases r)
    case (Inl e)
    with r show ?thesis by simp
  next
    case (Inr s1)
    obtain c1 roots1 where s1: "s1 = (c1, roots1)" by (cases s1)
    from createLayoutTree_frame [of k c roots c1 roots1] r Inr s1 have fr: "frame c c1" by simp
    have "\<not> protoRef c1" using Cons.prems(1) by (simp add: protoRef_frame [OF fr])
    moreover have "\<forall>j \<in> set ks. map_of c1 j \<noteq> None"
      using Cons.prems(2) frame_dom [OF fr] by simp
    ultimately have "forEachCreate ks (c1, roots1) \<noteq> None" by (rule Cons.IH)
    with r Inr s1 show ?thesis by simp
  qed
qed

lemma protoRef_universe: "protoRef (freshMarkers (withInherited c)) \<longleftrightarrow> protoRef c"
  by (auto simp: protoRef_def par_freshMarkers par_withInherited map_of_freshMarkers
      map_of_withInherited inheritedFunctions_def split: option.splits)

lemma buildTree_defined: "\<not> protoRef c \<Longrightarrow> buildTree c \<noteq> None"
proof -
  assume a: "\<not> protoRef c"
  have "\<forall>k \<in> set (map fst c). map_of (freshMarkers (withInherited c)) k \<noteq> None"
    by (auto simp: map_of_freshMarkers map_of_withInherited map_of_eq_None_iff
        split: option.splits)
  with a show ?thesis
    unfolding buildTree_def
    by (intro forEachCreate_defined) (simp_all add: protoRef_universe)
qed

lemma dangling_universe:
  "dangling (withInherited c) \<longleftrightarrow>
     (\<exists>x p. par c x = Some p \<and> map_of c p = None \<and> p \<notin> set inheritedFunctions)"
  by (auto simp: dangling_def par_withInherited map_of_withInherited split: option.splits if_splits)

lemma not_dangling_universe: "\<not> dangling c \<Longrightarrow> \<not> dangling (withInherited c) \<and> \<not> protoRef c"
proof
  assume a: "\<not> dangling c"
  show "\<not> dangling (withInherited c)"
  proof
    assume "dangling (withInherited c)"
    then obtain x p where "par c x = Some p" "map_of c p = None"
      unfolding dangling_universe by blast
    with a show False unfolding dangling_def by blast
  qed
  show "\<not> protoRef c"
  proof
    assume "protoRef c"
    then obtain x where "par c x = Some ''__proto__''" "map_of c ''__proto__'' = None"
      unfolding protoRef_def by blast
    with a show False unfolding dangling_def by blast
  qed
qed

section \<open>The order of the renders\<close>

lemma card_fin_le: "card {x. fin c x} \<le> length c"
proof -
  have "{x. fin c x} \<subseteq> fst ` set c"
    by (auto simp: fin_def split: option.splits dest: map_of_SomeD intro: rev_image_eqI)
  then have "card {x. fin c x} \<le> card (fst ` set c)"
    by (simp add: card_mono)
  also have "\<dots> \<le> card (set c)" by (rule card_image_le) simp
  also have "\<dots> \<le> length c" by (rule card_length)
  finally show ?thesis .
qed

lemma kids_children: "map_of c p = Some pf \<Longrightarrow> children pf = Some ch \<Longrightarrow> kids c p = ch"
  by (simp add: kids_def)

lemma renderLayouts_Inr_cases:
  assumes "renderLayouts fuel c (parent # rest) = Some (Inr tasks)"
  obtains
    (proto) "map_of c parent = None" "parent = ''__proto__''"
      "renderLayouts fuel c rest = Some (Inr tasks)"
  | (leaf) pf where "map_of c parent = Some pf" "children pf = None"
      "renderLayouts fuel c rest = Some (Inr tasks)"
  | (node) pf ch fuel' below after where "map_of c parent = Some pf" "children pf = Some ch"
      "fuel = Suc fuel'" "renderLayouts fuel' c ch = Some (Inr below)"
      "renderLayouts fuel c rest = Some (Inr after)" "tasks = ch # below @ after"
proof (cases "map_of c parent")
  case None
  with assms show ?thesis by (intro proto) (auto split: if_splits)
next
  case (Some pf)
  show ?thesis
  proof (cases "children pf")
    case None
    with assms Some show ?thesis by (intro leaf [of pf]) auto
  next
    case ch: (Some ch)
    with assms Some obtain fuel' where fuel: "fuel = Suc fuel'"
      by (cases fuel) auto
    from assms Some ch fuel obtain below where below: "renderLayouts fuel' c ch = Some (Inr below)"
      by (cases "renderLayouts fuel' c ch") (auto split: sum.splits)
    from assms Some ch fuel below obtain after where after: "renderLayouts fuel c rest = Some (Inr after)"
      by (cases "renderLayouts (Suc fuel') c rest") (auto split: sum.splits)
    from assms Some ch fuel below after have "tasks = ch # below @ after" by simp
    with Some ch fuel below after show ?thesis by (intro node [of pf ch fuel' below after]) auto
  qed
qed

text \<open>The recursion of \<open>renderLayouts\<close> ends when the children arrays hold finished
  layouts that rank above their parent: the fuel needed is bounded by the ranks.\<close>

lemma renderLayouts_total:
  fixes r :: "string \<Rightarrow> nat"
  shows "\<forall>p x. x \<in> set (kids c p) \<longrightarrow> fin c x \<and> r p < r x \<Longrightarrow>
         \<forall>x. fin c x \<longrightarrow> r x < N \<Longrightarrow>
         \<forall>p \<in> set L. fin c p \<and> d \<le> r p \<Longrightarrow> N \<le> fuel + d \<Longrightarrow>
           \<exists>tasks. renderLayouts fuel c L = Some (Inr tasks)"
proof (induction fuel c L arbitrary: d rule: renderLayouts.induct)
  case (1 fuel c)
  then show ?case by simp
next
  case (2 fuel c parent rest)
  note K = "2.prems"(1) and B = "2.prems"(2)
  from "2.prems"(3) have fp: "fin c parent" and dp: "d \<le> r parent" by auto
  from fp obtain pf where pf: "map_of c parent = Some pf"
    by (auto simp: fin_def split: option.splits)
  have restok: "\<forall>p \<in> set rest. fin c p \<and> d \<le> r p"
    using "2.prems"(3) by simp
  show ?case
  proof (cases "children pf")
    case None
    from "2.IH"(2) [OF pf None K B restok "2.prems"(4)] pf None show ?thesis by simp
  next
    case (Some ch)
    have kc: "kids c parent = ch" using pf Some by (rule kids_children)
    from B fp have "r parent < N" by blast
    with dp "2.prems"(4) obtain fuel' where fuel: "fuel = Suc fuel'"
      by (cases fuel) auto
    have chok: "\<forall>x \<in> set ch. fin c x \<and> Suc d \<le> r x"
    proof
      fix x assume "x \<in> set ch"
      with K kc have "fin c x \<and> r parent < r x" by blast
      with dp show "fin c x \<and> Suc d \<le> r x" by simp
    qed
    have "N \<le> fuel' + Suc d" using "2.prems"(4) fuel by simp
    from "2.IH"(3) [OF pf Some fuel K B chok this]
    obtain below where below: "renderLayouts fuel' c ch = Some (Inr below)" by blast
    from "2.IH"(4) [OF pf Some fuel below refl K B restok "2.prems"(4)]
    obtain after where "renderLayouts fuel c rest = Some (Inr after)" by blast
    with pf Some fuel below show ?thesis by simp
  qed
qed


lemma parentFirst_append:
  "parentFirst c S (xs @ ys) \<longleftrightarrow> parentFirst c S xs \<and> parentFirst c (S \<union> set (concat xs)) ys"
  by (induction xs arbitrary: S) (auto simp: Un_assoc)

lemma renderLayouts_parentFirst:
  "\<forall>p pf ch. map_of c p = Some pf \<and> children pf = Some ch \<longrightarrow> set ch = {x. par c0 x = Some p} \<Longrightarrow>
   renderLayouts fuel c L = Some (Inr tasks) \<Longrightarrow> set L \<subseteq> S \<Longrightarrow> parentFirst c0 S tasks"
proof (induction fuel c L arbitrary: tasks S rule: renderLayouts.induct)
  case (1 fuel c)
  then show ?case by simp
next
  case (2 fuel c parent rest)
  note C = "2.prems"(1)
  from "2.prems"(2) show ?case
  proof (cases rule: renderLayouts_Inr_cases)
    case proto
    from "2.IH"(1) [OF proto(1) proto(2) C proto(3)] "2.prems"(3) show ?thesis by simp
  next
    case (leaf pf)
    from "2.IH"(2) [OF leaf(1) leaf(2) C leaf(3)] "2.prems"(3) show ?thesis by simp
  next
    case (node pf ch fuel' below after)
    have 1: "\<exists>p \<in> S. set ch = {x. par c0 x = Some p}"
      using C node(1,2) "2.prems"(3) by auto
    have 2: "parentFirst c0 (S \<union> set ch) below"
      using "2.IH"(3) [OF node(1) node(2) node(3) C node(4)] by simp
    have "set rest \<subseteq> S \<union> set ch \<union> set (concat below)"
      using "2.prems"(3) by auto
    from "2.IH"(4) [OF node(1) node(2) node(3) node(4) refl C node(5) this]
    have 3: "parentFirst c0 (S \<union> set ch \<union> set (concat below)) after" .
    from 1 2 3 show ?thesis by (simp add: node(6) parentFirst_append)
  qed
qed

lemma renderLayouts_closed:
  "renderLayouts fuel c L = Some (Inr tasks) \<Longrightarrow>
   p \<in> set L \<union> set (concat tasks) \<Longrightarrow> map_of c p = Some pf \<Longrightarrow> children pf = Some ch \<Longrightarrow>
     ch \<in> set tasks"
proof (induction fuel c L arbitrary: tasks rule: renderLayouts.induct)
  case (1 fuel c)
  then show ?case by simp
next
  case (2 fuel c parent rest)
  from "2.prems"(1) show ?case
  proof (cases rule: renderLayouts_Inr_cases)
    case proto
    have "p \<noteq> parent" using proto(1) "2.prems"(3) by auto
    with "2.prems"(2) have "p \<in> set rest \<union> set (concat tasks)" by auto
    from "2.IH"(1) [OF proto(1) proto(2) proto(3) this "2.prems"(3) "2.prems"(4)] show ?thesis .
  next
    case (leaf qf)
    have "p \<noteq> parent" using leaf(1,2) "2.prems"(3,4) by auto
    with "2.prems"(2) have "p \<in> set rest \<union> set (concat tasks)" by auto
    from "2.IH"(2) [OF leaf(1) leaf(2) leaf(3) this "2.prems"(3) "2.prems"(4)] show ?thesis .
  next
    case (node qf qh fuel' below after)
    from "2.prems"(2) node(6) consider
      (a) "p = parent" | (b) "p \<in> set qh \<union> set (concat below)" | (c) "p \<in> set rest \<union> set (concat after)"
      by auto
    then show ?thesis
    proof cases
      case a
      with node(1,2) "2.prems"(3,4) show ?thesis by (simp add: node(6))
    next
      case b
      from "2.IH"(3) [OF node(1) node(2) node(3) node(4) b "2.prems"(3) "2.prems"(4)]
      show ?thesis by (simp add: node(6))
    next
      case c
      from "2.IH"(4) [OF node(1) node(2) node(3) node(4) refl node(5) c "2.prems"(3) "2.prems"(4)]
      show ?thesis by (simp add: node(6))
    qed
  qed
qed

text \<open>Every group of the schedule is the children array of a layout.\<close>

lemma renderLayouts_arrays:
  "renderLayouts fuel c L = Some (Inr tasks) \<Longrightarrow> g \<in> set tasks \<Longrightarrow>
     \<exists>p pf. map_of c p = Some pf \<and> children pf = Some g"
proof (induction fuel c L arbitrary: tasks rule: renderLayouts.induct)
  case (1 fuel c)
  then show ?case by simp
next
  case (2 fuel c parent rest)
  from "2.prems"(1) show ?case
  proof (cases rule: renderLayouts_Inr_cases)
    case proto
    from "2.IH"(1) [OF proto(1) proto(2) proto(3) "2.prems"(2)] show ?thesis .
  next
    case (leaf qf)
    from "2.IH"(2) [OF leaf(1) leaf(2) leaf(3) "2.prems"(2)] show ?thesis .
  next
    case (node qf qh fuel' below after)
    from "2.prems"(2) node(6) consider
      (a) "g = qh" | (b) "g \<in> set below" | (c) "g \<in> set after"
      by auto
    then show ?thesis
    proof cases
      case a
      with node(1,2) show ?thesis by blast
    next
      case b
      from "2.IH"(3) [OF node(1) node(2) node(3) node(4) b] show ?thesis .
    next
      case c
      from "2.IH"(4) [OF node(1) node(2) node(3) node(4) refl node(5) c] show ?thesis .
    qed
  qed
qed

text \<open>How often a layout is rendered: once per occurrence of its parent among the
  roots and the rendered layouts.\<close>

lemma renderLayouts_count:
  "renderLayouts fuel c L = Some (Inr tasks) \<Longrightarrow>
     count_list (concat tasks) x
       = sum_list (map (\<lambda>p. count_list (kids c p) x) (L @ concat tasks))"
proof (induction fuel c L arbitrary: tasks rule: renderLayouts.induct)
  case (1 fuel c)
  then show ?case by simp
next
  case (2 fuel c parent rest)
  from "2.prems"(1) show ?case
  proof (cases rule: renderLayouts_Inr_cases)
    case proto
    have "kids c parent = []" using proto(1) by (simp add: kids_def)
    with "2.IH"(1) [OF proto(1) proto(2) proto(3)] show ?thesis by simp
  next
    case (leaf qf)
    have "kids c parent = []" using leaf(1,2) by (simp add: kids_def)
    with "2.IH"(2) [OF leaf(1) leaf(2) leaf(3)] show ?thesis by simp
  next
    case (node qf qh fuel' below after)
    have k: "kids c parent = qh" using node(1,2) by (rule kids_children)
    from "2.IH"(3) [OF node(1) node(2) node(3) node(4)]
      "2.IH"(4) [OF node(1) node(2) node(3) node(4) refl node(5)] k
    show ?thesis by (simp add: node(6))
  qed
qed


lemma parentFirst_groups:
  "parentFirst c S tasks \<Longrightarrow> g \<in> set tasks \<Longrightarrow> \<exists>p. set g = {x. par c x = Some p}"
  by (induction tasks arbitrary: S) auto

lemma count_le_1_distinct: "\<forall>x. count_list xs x \<le> 1 \<Longrightarrow> distinct xs"
proof (induction xs)
  case Nil
  then show ?case by simp
next
  case (Cons a xs)
  have "count_list xs x \<le> 1" for x
    using Cons.prems [rule_format, of x] by (simp split: if_splits)
  then have "distinct xs" using Cons.IH by simp
  moreover have "count_list xs a = 0"
    using Cons.prems [rule_format, of a] by simp
  then have "a \<notin> set xs" by (simp add: count_list_0_iff)
  ultimately show ?case by simp
qed

lemma distinct_count_list: "distinct xs \<Longrightarrow> x \<in> set xs \<Longrightarrow> count_list xs x = 1"
  by (induction xs) auto

lemma sum_indicator_count:
  "sum_list (map (\<lambda>p. if p = q then 1 else 0) xs) = count_list xs q"
  by (induction xs) auto

text \<open>The fuel that \<open>renderNestedLayouts\<close> gives to \<open>renderLayouts\<close>, the number of
  entries of the state, is enough for every tree that the walk builds.\<close>

lemma buildTree_fuel:
  assumes bt: "buildTree c = Some (Inr (c1, roots))"
  shows "\<exists>tasks. renderLayouts (length c1) c1 roots = Some (Inr tasks)"
proof -
  note b = buildTree_Inr [OF bt]
  from b(1) obtain r :: "string \<Rightarrow> nat" where
    i1: "\<forall>p x. x \<in> set (kids c1 p) \<longrightarrow> fin c1 x \<and> par c1 x = Some p" and
    i3: "\<forall>x. x \<in> set roots \<longleftrightarrow> fin c1 x \<and> par c1 x = None" and
    r1: "\<forall>x p. fin c1 x \<and> par c1 x = Some p \<longrightarrow> r p < r x" and
    r2: "\<forall>x. fin c1 x \<longrightarrow> r x < card {x. fin c1 x}"
    unfolding treeInv_def by blast
  have K: "\<forall>p x. x \<in> set (kids c1 p) \<longrightarrow> fin c1 x \<and> r p < r x"
  proof (intro allI impI)
    fix p x assume "x \<in> set (kids c1 p)"
    with i1 have fx: "fin c1 x" and px: "par c1 x = Some p" by blast+
    from r1 fx px have "r p < r x" by blast
    with fx show "fin c1 x \<and> r p < r x" by simp
  qed
  have B: "\<forall>x. fin c1 x \<longrightarrow> r x < length c1"
  proof (intro allI impI)
    fix x assume "fin c1 x"
    with r2 have "r x < card {x. fin c1 x}" by simp
    with card_fin_le [of c1] show "r x < length c1" by simp
  qed
  have R: "\<forall>p \<in> set roots. fin c1 p \<and> 0 \<le> r p"
    using i3 by simp
  from renderLayouts_total [OF K B R, of "length c1"] show ?thesis by simp
qed

lemma buildTree_schedule:
  assumes bt: "buildTree c = Some (Inr (c1, roots))" and nd: "\<not> dangling c"
  shows "\<exists>tasks. renderLayouts (length c1) c1 roots = Some (Inr tasks) \<and>
           parentFirst c (set roots) tasks \<and>
           set roots = {x. map_of c x \<noteq> None \<and> par c x = None} \<and>
           set (concat tasks) = {x. par c x \<noteq> None} \<and>
           distinct roots \<and> distinct (concat tasks)"
proof -
  note b = buildTree_Inr [OF bt]
  from b(1) obtain r :: "string \<Rightarrow> nat" where
    i1: "\<forall>p x. x \<in> set (kids c1 p) \<longrightarrow> fin c1 x \<and> par c1 x = Some p" and
    i2: "\<forall>x p. fin c1 x \<and> par c1 x = Some p \<longrightarrow> fin c1 p \<and> x \<in> set (kids c1 p)" and
    i3: "\<forall>x. x \<in> set roots \<longleftrightarrow> fin c1 x \<and> par c1 x = None" and
    r1: "\<forall>x p. fin c1 x \<and> par c1 x = Some p \<longrightarrow> r p < r x" and
    r2: "\<forall>x. fin c1 x \<longrightarrow> r x < card {x. fin c1 x}" and
    d1: "distinct roots" and d2: "\<forall>p. distinct (kids c1 p)"
    unfolding treeInv_def by blast
  have P: "par c1 = par c" by (rule b(3))
  have fin_iff: "fin c1 x \<longleftrightarrow> map_of c x \<noteq> None" for x
  proof
    assume "fin c1 x"
    from b(7) [OF this] show "map_of c x \<noteq> None"
    proof
      assume "map_of c x \<noteq> None"
      then show ?thesis .
    next
      assume "\<exists>y. par c y = Some x"
      with nd show ?thesis by (auto simp: dangling_def)
    qed
  next
    assume "map_of c x \<noteq> None"
    then show "fin c1 x" by (rule b(4))
  qed
  have par_fin: "fin c1 x" if "par c x = Some p" for x p
  proof -
    from that have "map_of c x \<noteq> None" by (auto simp: par_def split: option.splits)
    then show ?thesis by (simp add: fin_iff)
  qed
  have kids_iff: "x \<in> set (kids c1 p) \<longleftrightarrow> par c x = Some p" for x p
  proof
    assume "x \<in> set (kids c1 p)"
    with i1 have "par c1 x = Some p" by blast
    then show "par c x = Some p" by (simp only: P)
  next
    assume a: "par c x = Some p"
    then have "fin c1 x" by (rule par_fin)
    moreover from a have "par c1 x = Some p" by (simp only: P)
    ultimately show "x \<in> set (kids c1 p)" using i2 by blast
  qed
  from buildTree_fuel [OF bt]
  obtain tasks where tasks: "renderLayouts (length c1) c1 roots = Some (Inr tasks)" by auto
  have C: "\<forall>p pf ch. map_of c1 p = Some pf \<and> children pf = Some ch \<longrightarrow> set ch = {x. par c x = Some p}"
  proof (intro allI impI)
    fix p pf ch assume "map_of c1 p = Some pf \<and> children pf = Some ch"
    then have "kids c1 p = ch" by (simp add: kids_children)
    with kids_iff [of _ p] show "set ch = {x. par c x = Some p}" by auto
  qed
  from renderLayouts_parentFirst [OF C tasks, of "set roots"]
  have pfst: "parentFirst c (set roots) tasks" by simp
  have "x \<in> set roots \<longleftrightarrow> map_of c x \<noteq> None \<and> par c x = None" for x
    using i3 [rule_format, of x] by (simp only: P fin_iff)
  then have rts: "set roots = {x. map_of c x \<noteq> None \<and> par c x = None}" by blast
  have sub: "set (concat tasks) \<subseteq> {x. par c x \<noteq> None}"
  proof
    fix x assume "x \<in> set (concat tasks)"
    then obtain g where g: "g \<in> set tasks" "x \<in> set g" by auto
    from parentFirst_groups [OF pfst g(1)] g(2) show "x \<in> {x. par c x \<noteq> None}" by auto
  qed
  have group_of: "\<exists>pf ch. map_of c1 p = Some pf \<and> children pf = Some ch \<and> x \<in> set ch"
    if "par c x = Some p" for x p
  proof -
    from that have "x \<in> set (kids c1 p)" by (simp add: kids_iff)
    then show ?thesis
      by (cases "map_of c1 p"; cases "children (the (map_of c1 p))") (auto simp: kids_def)
  qed
  have sup: "par c x \<noteq> None \<longrightarrow> x \<in> set (concat tasks)" for x
  proof (induction "r x" arbitrary: x rule: less_induct)
    case less
    show ?case
    proof
      assume "par c x \<noteq> None"
      then obtain p where p: "par c x = Some p" by auto
      from group_of [OF p] obtain pf ch where
        ch: "map_of c1 p = Some pf" "children pf = Some ch" "x \<in> set ch" by blast
      have p1: "par c1 x = Some p" using p by (simp only: P)
      have "r p < r x" using r1 par_fin [OF p] p1 by blast
      have "p \<in> set roots \<union> set (concat tasks)"
      proof (cases "par c p")
        case None
        have "fin c1 p" using i2 par_fin [OF p] p1 by blast
        moreover have "par c1 p = None" using None by (simp only: P)
        ultimately have "p \<in> set roots" using i3 by blast
        then show ?thesis by simp
      next
        case (Some q)
        with less [OF \<open>r p < r x\<close>] show ?thesis by simp
      qed
      from renderLayouts_closed [OF tasks this ch(1) ch(2)] ch(3)
      show "x \<in> set (concat tasks)" by auto
    qed
  qed
  have eq: "set (concat tasks) = {x. par c x \<noteq> None}"
    using sub sup by auto
  have cnt: "count_list (concat tasks) x
      = (case par c x of None \<Rightarrow> 0 | Some p \<Rightarrow> count_list roots p + count_list (concat tasks) p)" for x
  proof (cases "par c x")
    case None
    then have "x \<notin> set (concat tasks)" using eq by auto
    with None show ?thesis by (simp add: count_list_0_iff)
  next
    case (Some p)
    have w: "count_list (kids c1 q) x = (if q = p then 1 else 0)" for q
    proof (cases "q = p")
      case True
      have "x \<in> set (kids c1 p)" using Some by (simp add: kids_iff)
      moreover have "distinct (kids c1 p)" using d2 by simp
      ultimately have "count_list (kids c1 p) x = 1"
        by (simp add: distinct_count_list)
      with True show ?thesis by simp
    next
      case False
      with Some have "x \<notin> set (kids c1 q)" by (simp add: kids_iff)
      with False show ?thesis by (simp add: count_list_0_iff)
    qed
    from renderLayouts_count [OF tasks, of x]
    have "count_list (concat tasks) x = count_list (roots @ concat tasks) p"
      by (simp only: w sum_indicator_count)
    with Some show ?thesis by simp
  qed
  have one: "fin c1 x \<longrightarrow> count_list roots x + count_list (concat tasks) x = 1" for x
  proof (induction "r x" arbitrary: x rule: less_induct)
    case less
    show ?case
    proof
      assume fx: "fin c1 x"
      show "count_list roots x + count_list (concat tasks) x = 1"
      proof (cases "par c x")
        case None
        then have "par c1 x = None" by (simp only: P)
        with fx i3 have "x \<in> set roots" by blast
        with d1 have "count_list roots x = 1" by (simp add: distinct_count_list)
        moreover from None cnt [of x] have "count_list (concat tasks) x = 0" by simp
        ultimately show ?thesis by simp
      next
        case (Some p)
        then have p1: "par c1 x = Some p" by (simp only: P)
        with i3 have "x \<notin> set roots" by auto
        then have "count_list roots x = 0" by (simp add: count_list_0_iff)
        moreover have "fin c1 p" "r p < r x"
          using i2 r1 fx p1 by blast+
        with less have "count_list roots p + count_list (concat tasks) p = 1" by simp
        with Some cnt [of x] have "count_list (concat tasks) x = 1" by simp
        ultimately show ?thesis by simp
      qed
    qed
  qed
  have "count_list (concat tasks) x \<le> 1" for x
  proof (cases "fin c1 x")
    case True
    with one [of x] show ?thesis by simp
  next
    case False
    then have "par c x = None"
      using par_fin [of x] by (cases "par c x") auto
    with cnt [of x] show ?thesis by simp
  qed
  then have "distinct (concat tasks)" by (simp add: count_le_1_distinct)
  with tasks pfst rts eq d1 show ?thesis by blast
qed

lemma rendered_append: "rendered (xs @ ys) = rendered xs @ rendered ys"
  by (induction xs rule: rendered.induct) auto

lemma renderLevel_rendered: "rendered (snd (renderLevel gt md d g c)) = g"
proof (induction g arbitrary: c)
  case Nil
  then show ?case by simp
next
  case (Cons child rest)
  show ?case
  proof (cases "render gt md d child c c")
    case (Inl e)
    obtain c' evs where r: "renderLevel gt md d rest c = (c', evs)"
      by (cases "renderLevel gt md d rest c")
    with Cons [of c] have "rendered evs = rest" by simp
    with Inl r show ?thesis by simp
  next
    case (Inr c1)
    obtain c' evs where r: "renderLevel gt md d rest c1 = (c', evs)"
      by (cases "renderLevel gt md d rest c1")
    with Cons [of c1] have "rendered evs = rest" by simp
    with Inr r show ?thesis by simp
  qed
qed

lemma firstError_append:
  "firstError (xs @ ys) = (case firstError xs of Some e \<Rightarrow> Some e | None \<Rightarrow> firstError ys)"
  by (induction xs rule: firstError.induct) auto

lemma renderLevel_length: "length (snd (renderLevel gt md d g c)) = length g"
proof (induction g arbitrary: c)
  case Nil
  then show ?case by simp
next
  case (Cons child rest)
  show ?case
  proof (cases "render gt md d child c c")
    case (Inl e)
    obtain c' evs where r: "renderLevel gt md d rest c = (c', evs)"
      by (cases "renderLevel gt md d rest c")
    with Cons [of c] have "length evs = length rest" by simp
    with Inl r show ?thesis by simp
  next
    case (Inr c1)
    obtain c' evs where r: "renderLevel gt md d rest c1 = (c', evs)"
      by (cases "renderLevel gt md d rest c1")
    with Cons [of c1] have "length evs = length rest" by simp
    with Inr r show ?thesis by simp
  qed
qed

text \<open>The chain of tasks renders group after group and stops after the first group in
  which a render failed; its result is that failure, or the collection.\<close>

lemma runTasks_trace:
  "\<exists>k. stopsAtFailure tasks (snd (runTasks gt md d tasks c)) k \<and>
       (case firstError (snd (runTasks gt md d tasks c)) of
          None \<Rightarrow> \<exists>c'. fst (runTasks gt md d tasks c) = Inr c'
        | Some e \<Rightarrow> fst (runTasks gt md d tasks c) = Inl e)"
proof (induction tasks arbitrary: c)
  case Nil
  show ?case by (intro exI [of _ 0]) (simp add: stopsAtFailure_def)
next
  case (Cons level levels)
  obtain c1 evs where lv: "renderLevel gt md d level c = (c1, evs)"
    by (cases "renderLevel gt md d level c")
  then have names: "rendered evs = level"
    using renderLevel_rendered [of gt md d level c] by simp
  from lv have len: "length evs = length level"
    using renderLevel_length [of gt md d level c] by simp
  show ?case
  proof (cases "firstError evs")
    case (Some e)
    with lv have run: "runTasks gt md d (level # levels) c = (Inl e, evs)" by simp
    have "stopsAtFailure (level # levels) evs 1"
      using names len Some by (simp add: stopsAtFailure_def)
    with run Some show ?thesis by (intro exI [of _ 1]) simp
  next
    case None
    obtain r evs' where rest: "runTasks gt md d levels c1 = (r, evs')"
      by (cases "runTasks gt md d levels c1")
    with lv None have run: "runTasks gt md d (level # levels) c = (r, evs @ evs')" by simp
    from Cons [of c1, unfolded rest fst_conv snd_conv] obtain k where
      k: "stopsAtFailure levels evs' k" and
      res: "case firstError evs' of None \<Rightarrow> \<exists>c'. r = Inr c' | Some e \<Rightarrow> r = Inl e"
      by blast
    from k have k1: "k \<le> length levels" and k2: "rendered evs' = concat (take k levels)"
      and k3: "length evs' = length (concat (take k levels))"
      and k4: "firstError (take (length (concat (take (k - 1) levels))) evs') = None"
      and k5: "case firstError evs' of None \<Rightarrow> k = length levels | Some e \<Rightarrow> 0 < k"
      by (simp_all add: stopsAtFailure_def)
    have fe: "firstError (evs @ evs') = firstError evs'"
      using None by (simp add: firstError_append)
    have pre: "firstError (take (length (concat (take k (level # levels)))) (evs @ evs')) = None"
    proof (cases k)
      case 0
      then show ?thesis by simp
    next
      case (Suc j)
      then have "take (length (concat (take k (level # levels)))) (evs @ evs')
                   = evs @ take (length (concat (take (k - 1) levels))) evs'"
        using len by simp
      with None k4 show ?thesis by (simp add: firstError_append)
    qed
    have st: "stopsAtFailure (level # levels) (evs @ evs') (Suc k)"
      unfolding stopsAtFailure_def
    proof (intro conjI)
      show "Suc k \<le> length (level # levels)" using k1 by simp
      show "rendered (evs @ evs') = concat (take (Suc k) (level # levels))"
        using names k2 by (simp add: rendered_append)
      show "length (evs @ evs') = length (concat (take (Suc k) (level # levels)))"
        using len k3 by simp
      show "firstError (take (length (concat (take (Suc k - 1) (level # levels)))) (evs @ evs')) = None"
        using pre by simp
      show "case firstError (evs @ evs') of None \<Rightarrow> Suc k = length (level # levels) | Some e \<Rightarrow> 0 < Suc k"
        using k5 by (simp add: fe split: option.splits)
    qed
    show ?thesis unfolding run fst_conv snd_conv fe using st res by blast
  qed
qed

lemma rerendered_refl: "rerendered c c"
  unfolding rerendered_def
proof (intro conjI allI impI)
  fix k f assume "map_of c k = Some f"
  then have "map_of c k = Some (f\<lparr>contents := contents f\<rparr>)" by simp
  then show "\<exists>b. map_of c k = Some (f\<lparr>contents := b\<rparr>)" by blast
qed simp

lemma rerendered_trans:
  assumes ab: "rerendered a b" and bc: "rerendered b c"
  shows "rerendered a c"
proof -
  have "\<exists>y. map_of c k = Some (f\<lparr>contents := y\<rparr>)" if "map_of a k = Some f" for k f
  proof -
    from ab that obtain x where "map_of b k = Some (f\<lparr>contents := x\<rparr>)"
      unfolding rerendered_def by blast
    with bc obtain y where "map_of c k = Some (f\<lparr>contents := x, contents := y\<rparr>)"
      unfolding rerendered_def by blast
    then show ?thesis by auto
  qed
  moreover have "map fst c = map fst a" using ab bc by (simp add: rerendered_def)
  ultimately show ?thesis by (simp add: rerendered_def)
qed

lemma rerendered_modify: "rerendered c (modify k (\<lambda>f. f\<lparr>contents := b\<rparr>) c)"
  unfolding rerendered_def
proof (intro conjI allI impI)
  show "map fst (modify k (\<lambda>f. f\<lparr>contents := b\<rparr>) c) = map fst c" by (rule keys_modify)
next
  fix j f assume f: "map_of c j = Some f"
  show "\<exists>x. map_of (modify k (\<lambda>f. f\<lparr>contents := b\<rparr>) c) j = Some (f\<lparr>contents := x\<rparr>)"
  proof (cases "j = k")
    case True
    with f show ?thesis by (auto simp: map_of_modify)
  next
    case False
    with f have "map_of (modify k (\<lambda>f. f\<lparr>contents := b\<rparr>) c) j = Some (f\<lparr>contents := contents f\<rparr>)"
      by (simp add: map_of_modify)
    then show ?thesis by blast
  qed
qed

lemma render_rerendered: "render gt md d k fs coll = Inr fs' \<Longrightarrow> rerendered fs fs'"
  by (auto simp: render_def rerendered_modify
      split: option.splits layoutval.splits sum.splits handle.splits if_splits)

lemma renderLevel_rerendered: "rerendered c (fst (renderLevel gt md d g c))"
proof (induction g arbitrary: c)
  case Nil
  then show ?case by (simp add: rerendered_refl)
next
  case (Cons child rest)
  show ?case
  proof (cases "render gt md d child c c")
    case (Inl e)
    obtain c' evs where r: "renderLevel gt md d rest c = (c', evs)"
      by (cases "renderLevel gt md d rest c")
    with Cons [of c] have "rerendered c c'" by simp
    with Inl r show ?thesis by simp
  next
    case (Inr c1)
    obtain c' evs where r: "renderLevel gt md d rest c1 = (c', evs)"
      by (cases "renderLevel gt md d rest c1")
    with Cons [of c1] have "rerendered c1 c'" by simp
    with render_rerendered [OF Inr] have "rerendered c c'" by (rule rerendered_trans)
    with Inr r show ?thesis by simp
  qed
qed

lemma runTasks_rerendered:
  "fst (runTasks gt md d tasks c) = Inr c' \<Longrightarrow> rerendered c c'"
proof (induction tasks arbitrary: c)
  case Nil
  then show ?case by (simp add: rerendered_refl)
next
  case (Cons level levels)
  obtain c1 evs where lv: "renderLevel gt md d level c = (c1, evs)" by (cases "renderLevel gt md d level c")
  with renderLevel_rerendered [of c gt md d level] have 1: "rerendered c c1" by simp
  from Cons.prems lv have "fst (runTasks gt md d levels c1) = Inr c'"
    by (auto split: option.splits prod.splits)
  from 1 Cons.IH [OF this] show ?case by (rule rerendered_trans)
qed

section \<open>The claims about the layout forest\<close>

lemma acyclic_by_rank:
  fixes r :: "string \<Rightarrow> nat"
  assumes "\<And>x p. par c x = Some p \<Longrightarrow> r p < r x"
  shows "\<not> cyclic c"
proof
  assume "cyclic c"
  then obtain x where "(x, x) \<in> (parentRel c)\<^sup>+" unfolding cyclic_def by blast
  then have "r x < r x"
    by (rule rank_trancl) (use assms in \<open>auto simp: parentRel_def\<close>)
  then show False by simp
qed

lemma renderNestedLayouts_Inl:
  "buildTree c = Some (Inl e) \<Longrightarrow> renderNestedLayouts gt md d c = Some (Inl e, [])"
  by (simp add: renderNestedLayouts_def)

lemma select_nested_ok:
  assumes "stringPattern (pattern st)"
  shows "sel_thrown (select_nested mini gt isUtf8 rp lp st fs) = None \<and>
         rendered (sel_events (select_nested mini gt isUtf8 rp lp st fs)) = []"
proof -
  from assms obtain ps where ps: "checkPattern (pattern st) = Some ps" "PNotString \<notin> set ps"
    by (cases "pattern st") auto
  let ?pats = "ps @ [PStr (CHR ''!'' # joinPath (setLayoutsPrefix_nested rp lp) ''**'')]"
  have "PNotString \<notin> set ?pats" using ps(2) by simp
  from multimatch_total [OF this]
  obtain m where m: "multimatch mini (map fst fs) (Some ?pats) = Inr m" by blast
  have "set m \<subseteq> fst ` set fs"
    using multimatch_subset [OF m] by auto
  then obtain vs where vs: "filterValid gt isUtf8 (dflt st) fs m = Inr vs"
    using filterValid_total by blast
  with ps(1) m show ?thesis by (simp add: select_nested_def Let_def)
qed

lemma plugin_nested_tree_error:
  assumes "stringPattern (pattern st)" and "buildTree c = Some (Inl e)"
  shows "\<exists>out. plugin_nested mini gt isUtf8 md rp lp st fs c = Some out \<and> thrown out = None \<and>
           out_state out = None \<and> rendered (events out) = [] \<and> last (events out) = Done (Some e)"
  using select_nested_ok [OF assms(1), of mini gt isUtf8 rp lp fs]
    renderNestedLayouts_Inl [OF assms(2), of gt md "dflt st"]
  by (simp add: plugin_nested_def Let_def rendered_append)

text \<open>The layout stage and the pass return for every collection that does not refer to
  the prototype: the fuel given to \<open>renderLayouts\<close> is enough.\<close>

lemma renderNestedLayouts_total:
  assumes "\<not> protoRef c"
  shows "\<exists>r evs. renderNestedLayouts gt md d c = Some (r, evs)"
proof -
  from buildTree_defined [OF assms] obtain b where b: "buildTree c = Some b" by blast
  show ?thesis
  proof (cases b)
    case (Inl e)
    with b show ?thesis by (simp add: renderNestedLayouts_def)
  next
    case (Inr s)
    obtain c1 roots where s: "s = (c1, roots)" by (cases s)
    with Inr b have bt: "buildTree c = Some (Inr (c1, roots))" by simp
    from buildTree_fuel [OF bt] obtain tasks where
      tasks: "renderLayouts (length c1) c1 roots = Some (Inr tasks)" by blast
    obtain r0 evs where run: "runTasks gt md d tasks (records c c1) = (r0, evs)"
      by (cases "runTasks gt md d tasks (records c c1)")
    from bt tasks run show ?thesis
      by (cases r0) (simp_all add: renderNestedLayouts_def)
  qed
qed

lemma plugin_nested_total:
  assumes "\<not> protoRef c"
  shows "\<exists>out. plugin_nested mini gt isUtf8 md rp lp st fs c = Some out"
proof -
  obtain r evs where "renderNestedLayouts gt md (dflt st) c = Some (r, evs)"
    using renderNestedLayouts_total [OF assms] by blast
  then show ?thesis
    by (auto simp: plugin_nested_def Let_def split: option.splits sum.splits prod.splits)
qed

text \<open>
  C1, as the code has it. For a collection without a cycle in which every parent is a
  record, the tree is built and the promise chain has one link per group of siblings:
  every group is the children array of one layout. The rendered layouts are exactly
  the layouts that have a parent, each once: a parentless layout is never rendered.
  Every group holds the children of one layout, which is a root or belongs to an
  earlier group, so a rendered parent is rendered before its children. The groups
  follow the recursion of \<open>renderLayouts\<close>, depth first, not level by level. The renders
  stop at the first group with a failed render: every group before it is rendered
  without a failure, no group after it is rendered, and the stage ends with that
  failure; without a failure every group is rendered and the stage succeeds.
\<close>

theorem layout_render_order:
  "\<not> cyclic c \<and> \<not> dangling c \<Longrightarrow>
     \<exists>c1 roots tasks r evs k.
        buildTree c = Some (Inr (c1, roots)) \<and>
        renderLayouts (length c1) c1 roots = Some (Inr tasks) \<and>
        renderNestedLayouts gt md d c = Some (r, evs) \<and>
        set roots = {x. map_of c x \<noteq> None \<and> par c x = None} \<and>
        set (concat tasks) = {x. par c x \<noteq> None} \<and> distinct (concat tasks) \<and>
        parentFirst c (set roots) tasks \<and>
        (\<forall>g \<in> set tasks. \<exists>p pf. map_of c1 p = Some pf \<and> children pf = Some g) \<and>
        stopsAtFailure tasks evs k \<and>
        (case firstError evs of None \<Rightarrow> \<exists>c2. r = Inr c2 | Some e \<Rightarrow> r = Inl e)"
proof -
  assume a: "\<not> cyclic c \<and> \<not> dangling c"
  then have nd: "\<not> dangling c" by simp
  from not_dangling_universe [OF nd] have ndu: "\<not> dangling (withInherited c)" and np: "\<not> protoRef c"
    by simp_all
  from buildTree_defined [OF np] obtain b where b: "buildTree c = Some b" by blast
  have "\<exists>s. b = Inr s"
  proof (cases b)
    case (Inl e)
    with b have "buildTree c = Some (Inl e)" by simp
    from buildTree_Inl_sound [OF this] a ndu show ?thesis by (auto simp: cyclic_def)
  next
    case (Inr s)
    then show ?thesis by blast
  qed
  with b obtain c1 roots where bt: "buildTree c = Some (Inr (c1, roots))" by (metis surj_pair)
  from buildTree_schedule [OF bt nd] obtain tasks where
    t: "renderLayouts (length c1) c1 roots = Some (Inr tasks)"
      "parentFirst c (set roots) tasks"
      "set roots = {x. map_of c x \<noteq> None \<and> par c x = None}"
      "set (concat tasks) = {x. par c x \<noteq> None}"
      "distinct (concat tasks)"
    by blast
  have arrays: "\<forall>g \<in> set tasks. \<exists>p pf. map_of c1 p = Some pf \<and> children pf = Some g"
    using renderLayouts_arrays [OF t(1)] by blast
  obtain r0 evs where run: "runTasks gt md d tasks (records c c1) = (r0, evs)"
    by (cases "runTasks gt md d tasks (records c c1)")
  from runTasks_trace [of tasks gt md d "records c c1", unfolded run fst_conv snd_conv]
  obtain k where
    k: "stopsAtFailure tasks evs k"
      "case firstError evs of None \<Rightarrow> \<exists>c'. r0 = Inr c' | Some e \<Rightarrow> r0 = Inl e"
    by blast
  let ?r = "case r0 of Inl e \<Rightarrow> Inl e | Inr c2 \<Rightarrow> Inr (cleanup c2)"
  have rn: "renderNestedLayouts gt md d c = Some (?r, evs)"
    using bt t(1) run by (simp add: renderNestedLayouts_def split: sum.splits)
  have res: "case firstError evs of None \<Rightarrow> \<exists>c2. ?r = Inr c2 | Some e \<Rightarrow> ?r = Inl e"
    using k(2) by (auto split: option.splits)
  from bt t rn arrays k(1) res show ?thesis by blast
qed

text \<open>
  C2, as the code has it. When the parent relation has a cycle and every parent is a
  record, the walk fails with the circular-dependency error, the layout it names is
  on a cycle, and the pass (with a pattern of strings) ends with that error and no
  render.
\<close>

theorem circular_dependency_fatal:
  "cyclic c \<and> \<not> dangling c \<Longrightarrow>
     \<exists>n. (n, n) \<in> (parentRel c)\<^sup>+ \<and> buildTree c = Some (Inl (Circular n)) \<and>
         renderNestedLayouts gt md d c = Some (Inl (Circular n), []) \<and>
         (stringPattern (pattern st) \<longrightarrow>
            (\<exists>out. plugin_nested mini gt isUtf8 md rp lp st fs c = Some out \<and> thrown out = None \<and>
                   out_state out = None \<and> rendered (events out) = [] \<and>
                   last (events out) = Done (Some (Circular n))))"
proof -
  assume a: "cyclic c \<and> \<not> dangling c"
  then have nd: "\<not> dangling c" by simp
  from not_dangling_universe [OF nd] have ndu: "\<not> dangling (withInherited c)" and np: "\<not> protoRef c"
    by simp_all
  from buildTree_defined [OF np] obtain b where b: "buildTree c = Some b" by blast
  obtain e where e: "buildTree c = Some (Inl e)"
  proof (cases b)
    case (Inl e)
    with b show ?thesis by (intro that [of e]) simp
  next
    case (Inr s)
    with b have "buildTree c = Some (Inr (fst s, snd s))" by simp
    from buildTree_Inr_sound [OF this] a show ?thesis by simp
  qed
  from buildTree_Inl_sound [OF e] ndu obtain n where
    n: "e = Circular n" "(n, n) \<in> (parentRel c)\<^sup>+" by blast
  from e n(1) have bt: "buildTree c = Some (Inl (Circular n))" by simp
  from n(2) bt renderNestedLayouts_Inl [OF bt, of gt md d]
    plugin_nested_tree_error [OF _ bt, of st mini gt isUtf8 md rp lp fs]
  show ?thesis by blast
qed

text \<open>
  C10, as the code has it. When some layout names a parent for which the collection
  has no value at all (no record, and not an inherited name) and no layout refers to
  the prototype, the tree construction fails and the pass ends with its error before
  any render: the TypeError of the undefined parent or, when a cycle is met first, the
  circular-dependency error; without a cycle it is the TypeError. The layout is not
  skipped and the render-time error is not reached.
\<close>

theorem dangling_parent_fatal:
  "missingParent c \<and> \<not> protoRef c \<Longrightarrow>
     \<exists>e. buildTree c = Some (Inl e) \<and> renderNestedLayouts gt md d c = Some (Inl e, []) \<and>
         (e = TypeError \<or> (\<exists>n. e = Circular n \<and> (n, n) \<in> (parentRel c)\<^sup>+)) \<and>
         (\<not> cyclic c \<longrightarrow> e = TypeError) \<and>
         (stringPattern (pattern st) \<longrightarrow>
            (\<exists>out. plugin_nested mini gt isUtf8 md rp lp st fs c = Some out \<and> thrown out = None \<and>
                   out_state out = None \<and> rendered (events out) = [] \<and>
                   last (events out) = Done (Some e)))"
proof -
  assume a: "missingParent c \<and> \<not> protoRef c"
  then obtain x p where xp: "par c x = Some p" "map_of c p = None" "\<not> inherited p"
    unfolding missingParent_def by blast
  then have "p \<notin> set inheritedFunctions" by (simp add: inherited_def)
  with xp have du: "dangling (withInherited c)" unfolding dangling_universe by blast
  from a buildTree_defined obtain b where b: "buildTree c = Some b" by blast
  obtain e where e: "buildTree c = Some (Inl e)"
  proof (cases b)
    case (Inl e)
    with b show ?thesis by (intro that [of e]) simp
  next
    case (Inr s)
    with b have "buildTree c = Some (Inr (fst s, snd s))" by simp
    from buildTree_Inr_sound [OF this] du show ?thesis by simp
  qed
  from buildTree_Inl_sound [OF e]
  have kind: "e = TypeError \<or> (\<exists>n. e = Circular n \<and> (n, n) \<in> (parentRel c)\<^sup>+)" by blast
  then have "\<not> cyclic c \<longrightarrow> e = TypeError" by (auto simp: cyclic_def)
  with e kind renderNestedLayouts_Inl [OF e, of gt md d]
    plugin_nested_tree_error [OF _ e, of st mini gt isUtf8 md rp lp fs]
  show ?thesis by blast
qed

lemma map_of_cleanup:
  "map_of (cleanup c) k =
     map_option (\<lambda>f. f\<lparr>children := None, finished := False, layout := Undefined\<rparr>) (map_of c k)"
  by (simp add: cleanup_def map_of_map)

lemma keys_freshMarkers: "map fst (freshMarkers c) = map fst c"
  by (simp add: freshMarkers_def comp_def case_prod_beta)

lemma keys_cleanup: "map fst (cleanup c) = map fst c"
  by (simp add: cleanup_def comp_def case_prod_beta)

text \<open>The records of a state of the walk are the first entries of the state, under the
  names of the collection.\<close>

lemma records_frame:
  assumes fr: "frame (freshMarkers (withInherited c)) c1"
  shows "map fst (records c c1) = map fst c"
    and "map_of (records c c1) k = Some f1 \<Longrightarrow> map_of c1 k = Some f1 \<and> map_of c k \<noteq> None"
proof -
  have keys: "map fst c1 = map fst c @ inheritedFunctions"
    using fr by (simp add: frame_def keys_freshMarkers keys_withInherited)
  have "map fst (records c c1) = take (length c) (map fst c1)"
    by (simp add: records_def take_map)
  with keys show k1: "map fst (records c c1) = map fst c" by simp
  assume f1: "map_of (records c c1) k = Some f1"
  have "c1 = records c c1 @ drop (length c) c1" by (simp add: records_def)
  then have "map_of c1 k = (map_of (drop (length c) c1) ++ map_of (records c c1)) k"
    by (metis map_of_append)
  with f1 have "map_of c1 k = Some f1" by (simp add: map_add_def)
  moreover from f1 have "k \<in> set (map fst (records c c1))"
    by (metis map_of_eq_None_iff option.distinct(1) set_map)
  with k1 have "map_of c k \<noteq> None" by (simp add: map_of_eq_None_iff)
  ultimately show "map_of c1 k = Some f1 \<and> map_of c k \<noteq> None" by simp
qed

lemma renderNestedLayouts_Inr:
  assumes "renderNestedLayouts gt md d c = Some (Inr c', evs)"
  shows "map fst c' = map fst c \<and>
         (\<forall>k f'. map_of c' k = Some f' \<longrightarrow>
            layout f' = Undefined \<and> \<not> seen f' \<and> \<not> finished f' \<and> children f' = None \<and>
            (\<exists>f. map_of c k = Some f \<and> data f' = data f))"
proof -
  from assms obtain c1 roots tasks c2 where
    bt: "buildTree c = Some (Inr (c1, roots))" and
    run: "runTasks gt md d tasks (records c c1) = (Inr c2, evs)" and c': "c' = cleanup c2"
    by (auto simp: renderNestedLayouts_def split: sum.splits option.splits prod.splits)
  note b = buildTree_Inr [OF bt]
  note rec = records_frame [OF b(2)]
  from run have rr: "rerendered (records c c1) c2"
    using runTasks_rerendered [of gt md d tasks "records c c1" c2] by simp
  have keys: "map fst c' = map fst c"
    using rr rec(1) c' by (simp add: rerendered_def keys_cleanup)
  have "layout f' = Undefined \<and> \<not> seen f' \<and> \<not> finished f' \<and> children f' = None \<and>
            (\<exists>f. map_of c k = Some f \<and> data f' = data f)" if f': "map_of c' k = Some f'" for k f'
  proof -
    from f' c' obtain f2 where f2: "map_of c2 k = Some f2"
      "f' = f2\<lparr>children := None, finished := False, layout := Undefined\<rparr>"
      by (auto simp: map_of_cleanup)
    have "map_of (records c c1) k \<noteq> None"
      using rr f2(1) by (metis rerendered_def map_of_eq_None_iff option.distinct(1) set_map)
    then obtain f1 where f1r: "map_of (records c c1) k = Some f1" by blast
    with rr f2(1) obtain x where x: "f2 = f1\<lparr>contents := x\<rparr>"
      unfolding rerendered_def by fastforce
    from rec(2) [OF f1r] have f1: "map_of c1 k = Some f1" and "map_of c k \<noteq> None" by simp_all
    then obtain f where f: "map_of c k = Some f" by blast
    then have "map_of (freshMarkers (withInherited c)) k
                 = Some (f\<lparr>seen := False, finished := False, children := None\<rparr>)"
      by (simp add: map_of_freshMarkers map_of_withInherited)
    with b(2) f1 have "data f1 = data f"
      unfolding frame_def keeps_def by fastforce
    moreover have "\<not> seen f1" using b(5) [of k] f1 by (simp add: sn_def)
    ultimately show ?thesis using f2(2) x f by simp
  qed
  with keys show ?thesis by blast
qed

text \<open>
  C9. When the pass of the nested variant reaches \<open>done()\<close>, every record of the layout
  collection is without its \<open>layout\<close> property and without the three markers, the names
  of the collection are the same, and the front matter of every record is unchanged.
\<close>

theorem cleanup_after_success:
  "plugin_nested mini gt isUtf8 md rp lp st fs c = Some out \<and> out_state out = Some (fs', c') \<Longrightarrow>
     map fst c' = map fst c \<and>
     (\<forall>k f'. map_of c' k = Some f' \<longrightarrow>
        layout f' = Undefined \<and> \<not> seen f' \<and> \<not> finished f' \<and> children f' = None \<and>
        (\<exists>f. map_of c k = Some f \<and> data f' = data f))"
proof -
  assume a: "plugin_nested mini gt isUtf8 md rp lp st fs c = Some out \<and> out_state out = Some (fs', c')"
  then obtain evs where "renderNestedLayouts gt md (dflt st) c = Some (Inr c', evs)"
    by (auto simp: plugin_nested_def Let_def split: option.splits sum.splits prod.splits)
  then show ?thesis by (rule renderNestedLayouts_Inr)
qed


lemma sampleForest_par:
  "par sampleForest x = Some p \<longleftrightarrow>
     (x = ''a.hbs'' \<and> p = ''r1.hbs'') \<or> (x = ''b.hbs'' \<and> p = ''a.hbs'') \<or> (x = ''c.hbs'' \<and> p = ''r2.hbs'')"
  by (auto simp: sampleForest_def par_def plainFile_def parentOf_def split: if_splits)

lemma sampleForest_ok: "\<not> cyclic sampleForest \<and> \<not> dangling sampleForest"
proof
  show "\<not> cyclic sampleForest"
  proof (rule acyclic_by_rank)
    fix x p assume "par sampleForest x = Some p"
    then show "(\<lambda>n. if n = ''b.hbs'' then 2 else if n = ''a.hbs'' \<or> n = ''c.hbs'' then 1 else (0::nat)) p
             < (\<lambda>n. if n = ''b.hbs'' then 2 else if n = ''a.hbs'' \<or> n = ''c.hbs'' then 1 else 0) x"
      unfolding sampleForest_par by auto
  qed
  show "\<not> dangling sampleForest"
    unfolding dangling_def sampleForest_par
    by (auto simp: sampleForest_def)
qed

text \<open>
  The forest of two trees, with an engine that fails on \<open>b.hbs\<close>: the groups are
  \<open>a.hbs\<close>, \<open>b.hbs\<close> and \<open>c.hbs\<close>, the renders stop after the second group, and \<open>c.hbs\<close>
  is not rendered.
\<close>

theorem layout_render_order_witness:
  "\<not> cyclic sampleForest \<and> \<not> dangling sampleForest \<and>
   (\<exists>c1 roots tasks r evs k.
        buildTree sampleForest = Some (Inr (c1, roots)) \<and>
        renderLayouts (length c1) c1 roots = Some (Inr tasks) \<and>
        renderNestedLayouts (\<lambda>e. Some (pickyEngine ''B'')) Map.empty Undefined sampleForest
          = Some (r, evs) \<and>
        set roots = {x. map_of sampleForest x \<noteq> None \<and> par sampleForest x = None} \<and>
        set (concat tasks) = {x. par sampleForest x \<noteq> None} \<and> distinct (concat tasks) \<and>
        parentFirst sampleForest (set roots) tasks \<and>
        (\<forall>g \<in> set tasks. \<exists>p pf. map_of c1 p = Some pf \<and> children pf = Some g) \<and>
        stopsAtFailure tasks evs k \<and>
        tasks = [[''a.hbs''], [''b.hbs''], [''c.hbs'']] \<and> k = 2 \<and>
        rendered evs = [''a.hbs'', ''b.hbs''] \<and> r = Inl (EngineError ''B''))"
proof -
  let ?gt = "\<lambda>e. Some (pickyEngine ''B'')"
  have sched: "(case buildTree sampleForest of
                  Some (Inr (c1, roots)) \<Rightarrow> renderLayouts (length c1) c1 roots
                | _ \<Rightarrow> None) = Some (Inr [[''a.hbs''], [''b.hbs''], [''c.hbs'']])"
    by code_simp
  have run: "map_option (\<lambda>(r, evs). (rendered evs, case r of Inl e \<Rightarrow> Some e | Inr c2 \<Rightarrow> None))
               (renderNestedLayouts ?gt Map.empty Undefined sampleForest)
             = Some ([''a.hbs'', ''b.hbs''], Some (EngineError ''B''))"
    by code_simp
  from layout_render_order [OF sampleForest_ok, of ?gt Map.empty Undefined]
  obtain c1 roots tasks r evs k where
    bt: "buildTree sampleForest = Some (Inr (c1, roots))" and
    rl: "renderLayouts (length c1) c1 roots = Some (Inr tasks)" and
    rn: "renderNestedLayouts ?gt Map.empty Undefined sampleForest = Some (r, evs)" and
    facts: "set roots = {x. map_of sampleForest x \<noteq> None \<and> par sampleForest x = None}"
      "set (concat tasks) = {x. par sampleForest x \<noteq> None}" "distinct (concat tasks)"
      "parentFirst sampleForest (set roots) tasks"
      "\<forall>g \<in> set tasks. \<exists>p pf. map_of c1 p = Some pf \<and> children pf = Some g" and
    st: "stopsAtFailure tasks evs k"
    by blast
  from sched bt rl have tasks: "tasks = [[''a.hbs''], [''b.hbs''], [''c.hbs'']]" by simp
  from run rn have names: "rendered evs = [''a.hbs'', ''b.hbs'']"
    and res: "r = Inl (EngineError ''B'')"
    by (auto split: sum.splits)
  from st have "k \<le> length tasks" "rendered evs = concat (take k tasks)"
    by (simp_all add: stopsAtFailure_def)
  with tasks names have "k \<le> 3" and eq: "concat (take k [[''a.hbs''], [''b.hbs''], [''c.hbs'']]) = [''a.hbs'', ''b.hbs'']"
    by simp_all
  from \<open>k \<le> 3\<close> consider "k = 0" | "k = 1" | "k = 2" | "k = 3" by arith
  then have k: "k = 2" using eq by cases simp_all
  from sampleForest_ok bt rl rn facts st tasks k names res show ?thesis by blast
qed

text \<open>
  C1 as stated fails on the forest of two trees: the roots are not rendered, and
  \<open>b.hbs\<close>, on level 2, is rendered before \<open>c.hbs\<close>, on level 1.
\<close>

theorem level_order_counterexample:
  "map_option (\<lambda>(r, evs). rendered evs)
      (renderNestedLayouts (\<lambda>e. Some wrapEngine) Map.empty Undefined sampleForest)
     = Some [''a.hbs'', ''b.hbs'', ''c.hbs''] \<and>
   \<not> levelByLevel sampleForest [''a.hbs'', ''b.hbs'', ''c.hbs''] \<and>
   par sampleForest ''r1.hbs'' = None \<and>
   depthOf 5 sampleForest ''b.hbs'' = 2 \<and> depthOf 5 sampleForest ''c.hbs'' = 1"
proof -
  have 1: "map_option (\<lambda>(r, evs). rendered evs)
      (renderNestedLayouts (\<lambda>e. Some wrapEngine) Map.empty Undefined sampleForest)
     = Some [''a.hbs'', ''b.hbs'', ''c.hbs'']"
    by code_simp
  have 2: "par sampleForest ''r1.hbs'' = None" by code_simp
  have 3: "depthOf 5 sampleForest ''b.hbs'' = 2" "depthOf 5 sampleForest ''c.hbs'' = 1"
    by code_simp+
  have "length sampleForest = 5" by (simp add: sampleForest_def)
  with 3 have "\<not> sorted (map (depthOf (length sampleForest) sampleForest) [''a.hbs'', ''b.hbs'', ''c.hbs''])"
    by simp
  then have 4: "\<not> levelByLevel sampleForest [''a.hbs'', ''b.hbs'', ''c.hbs'']"
    by (simp add: levelByLevel_def)
  from 1 2 3 4 show ?thesis by simp
qed


lemma sampleCycle_par:
  "par sampleCycle x = Some p \<longleftrightarrow>
     (x = ''a.hbs'' \<and> p = ''b.hbs'') \<or> (x = ''b.hbs'' \<and> p = ''a.hbs'')"
  by (auto simp: sampleCycle_def par_def plainFile_def parentOf_def split: if_splits)

lemma sampleCycle_ok: "cyclic sampleCycle \<and> \<not> dangling sampleCycle"
proof
  have "(''a.hbs'', ''b.hbs'') \<in> parentRel sampleCycle" "(''b.hbs'', ''a.hbs'') \<in> parentRel sampleCycle"
    by (simp_all add: parentRel_def sampleCycle_par)
  then have "(''a.hbs'', ''a.hbs'') \<in> (parentRel sampleCycle)\<^sup>+" by (meson trancl.intros)
  then show "cyclic sampleCycle" unfolding cyclic_def by blast
  show "\<not> dangling sampleCycle"
    unfolding dangling_def sampleCycle_par by (auto simp: sampleCycle_def)
qed

theorem circular_dependency_fatal_witness:
  "cyclic sampleCycle \<and> \<not> dangling sampleCycle \<and>
   stringPattern (pattern \<lparr>pattern = PString ''**'', dflt = Undefined\<rparr>) \<and>
   (\<exists>n. (n, n) \<in> (parentRel sampleCycle)\<^sup>+ \<and> buildTree sampleCycle = Some (Inl (Circular n)) \<and>
        renderNestedLayouts (\<lambda>e. Some wrapEngine) Map.empty Undefined sampleCycle
          = Some (Inl (Circular n), []) \<and>
        (\<exists>out. plugin_nested (\<lambda>k p. p = ''**'') (\<lambda>e. Some wrapEngine) (\<lambda>b. True) Map.empty
                  ''layouts'' [] \<lparr>pattern = PString ''**'', dflt = Undefined\<rparr>
                  [(''index.md'', plainFile (LStr ''a.hbs'') ''text'')] sampleCycle = Some out \<and>
               thrown out = None \<and> out_state out = None \<and> rendered (events out) = [] \<and>
               last (events out) = Done (Some (Circular n))))"
proof -
  have p: "stringPattern (pattern \<lparr>pattern = PString ''**'', dflt = Undefined\<rparr>)" by simp
  from circular_dependency_fatal [OF sampleCycle_ok, of "\<lambda>e. Some wrapEngine" Map.empty Undefined
      "\<lparr>pattern = PString ''**'', dflt = Undefined\<rparr>" "\<lambda>k p. p = ''**''" "\<lambda>b. True"
      "''layouts''" "[]" "[(''index.md'', plainFile (LStr ''a.hbs'') ''text'')]"] p sampleCycle_ok
  show ?thesis by blast
qed

text \<open>
  C2 as stated fails when a layout with a missing parent is enumerated before the
  cycle: the pass ends with the TypeError, not with the circular-dependency error.
\<close>

theorem cycle_after_dangling_counterexample:
  "par sampleDanglingThenCycle ''a.hbs'' = Some ''a.hbs'' \<and>
   map_option events
     (plugin_nested (\<lambda>k p. p = ''**'') (\<lambda>e. Some wrapEngine) (\<lambda>b. True) Map.empty
        ''layouts'' [] \<lparr>pattern = PString ''**'', dflt = Undefined\<rparr>
        [(''index.md'', plainFile (LStr ''a.hbs'') ''text'')] sampleDanglingThenCycle)
     = Some [Done (Some TypeError)]"
  by code_simp

lemma sampleDangling_par:
  "par sampleDangling x = Some p \<longleftrightarrow> x = ''x.hbs'' \<and> p = ''missing.hbs''"
  by (auto simp: sampleDangling_def par_def plainFile_def parentOf_def split: if_splits)

lemma sampleDangling_ok:
  "missingParent sampleDangling \<and> \<not> protoRef sampleDangling \<and> \<not> cyclic sampleDangling"
proof (intro conjI)
  have "par sampleDangling ''x.hbs'' = Some ''missing.hbs''" by (simp add: sampleDangling_par)
  moreover have "map_of sampleDangling ''missing.hbs'' = None" by (simp add: sampleDangling_def)
  moreover have "\<not> inherited ''missing.hbs''" by (simp add: inherited_def inheritedFunctions_def)
  ultimately show "missingParent sampleDangling" unfolding missingParent_def by blast
  show "\<not> protoRef sampleDangling"
    unfolding protoRef_def sampleDangling_par by simp
  show "\<not> cyclic sampleDangling"
  proof (rule acyclic_by_rank)
    fix x p assume "par sampleDangling x = Some p"
    then show "(\<lambda>n. if n = ''x.hbs'' then 1 else (0::nat)) p < (\<lambda>n. if n = ''x.hbs'' then 1 else 0) x"
      unfolding sampleDangling_par by auto
  qed
qed

theorem dangling_parent_fatal_witness:
  "missingParent sampleDangling \<and> \<not> protoRef sampleDangling \<and> \<not> cyclic sampleDangling \<and>
   stringPattern (pattern \<lparr>pattern = PString ''**'', dflt = Undefined\<rparr>) \<and>
   buildTree sampleDangling = Some (Inl TypeError) \<and>
   renderNestedLayouts (\<lambda>e. Some wrapEngine) Map.empty Undefined sampleDangling = Some (Inl TypeError, []) \<and>
   (\<exists>out. plugin_nested (\<lambda>k p. p = ''**'') (\<lambda>e. Some wrapEngine) (\<lambda>b. True) Map.empty
             ''layouts'' [] \<lparr>pattern = PString ''**'', dflt = Undefined\<rparr>
             [(''index.md'', plainFile (LStr ''x.hbs'') ''text'')] sampleDangling = Some out \<and>
          thrown out = None \<and> out_state out = None \<and> rendered (events out) = [] \<and>
          last (events out) = Done (Some TypeError))"
proof -
  have p: "stringPattern (pattern \<lparr>pattern = PString ''**'', dflt = Undefined\<rparr>)" by simp
  from sampleDangling_ok have d: "missingParent sampleDangling \<and> \<not> protoRef sampleDangling" by simp
  from dangling_parent_fatal [OF d, of "\<lambda>e. Some wrapEngine" Map.empty Undefined
      "\<lparr>pattern = PString ''**'', dflt = Undefined\<rparr>" "\<lambda>k p. p = ''**''" "\<lambda>b. True"
      "''layouts''" "[]" "[(''index.md'', plainFile (LStr ''x.hbs'') ''text'')]"] p sampleDangling_ok
  show ?thesis by force
qed

text \<open>
  C10 as stated fails in two ways. When a cycle is enumerated before the layout with
  the missing parent, the pass ends with the circular-dependency error. And when the
  parent named is absent from the collection but is the name of an inherited
  function, the construction does not fail: the layout is registered under that
  function, its render is called, and the pass ends with the TypeError of that
  render.
\<close>

theorem dangling_after_cycle_counterexample:
  "par sampleCycleThenDangling ''x.hbs'' = Some ''missing.hbs'' \<and>
   map_of sampleCycleThenDangling ''missing.hbs'' = None \<and>
   map_option events
     (plugin_nested (\<lambda>k p. p = ''**'') (\<lambda>e. Some wrapEngine) (\<lambda>b. True) Map.empty
        ''layouts'' [] \<lparr>pattern = PString ''**'', dflt = Undefined\<rparr>
        [(''index.md'', plainFile (LStr ''a.hbs'') ''text'')] sampleCycleThenDangling)
     = Some [Done (Some (Circular ''a.hbs''))] \<and>
   par sampleInherited ''x.hbs'' = Some ''constructor'' \<and>
   map_of sampleInherited ''constructor'' = None \<and>
   map_option events
     (plugin_nested (\<lambda>k p. p = ''**'') (\<lambda>e. Some wrapEngine) (\<lambda>b. True) Map.empty
        ''layouts'' [] \<lparr>pattern = PString ''**'', dflt = Undefined\<rparr>
        [(''index.md'', plainFile (LStr ''x.hbs'') ''text'')] sampleInherited)
     = Some [Rendered ''x.hbs'' (Some TypeError), Done (Some TypeError)]"
proof -
  have "map_of sampleCycleThenDangling ''missing.hbs'' = None"
    by (simp add: sampleCycleThenDangling_def)
  moreover have "par sampleCycleThenDangling ''x.hbs'' = Some ''missing.hbs''" by code_simp
  moreover have "map_option events
     (plugin_nested (\<lambda>k p. p = ''**'') (\<lambda>e. Some wrapEngine) (\<lambda>b. True) Map.empty
        ''layouts'' [] \<lparr>pattern = PString ''**'', dflt = Undefined\<rparr>
        [(''index.md'', plainFile (LStr ''a.hbs'') ''text'')] sampleCycleThenDangling)
     = Some [Done (Some (Circular ''a.hbs''))]" by code_simp
  moreover have "map_of sampleInherited ''constructor'' = None"
    by (simp add: sampleInherited_def)
  moreover have "par sampleInherited ''x.hbs'' = Some ''constructor''" by code_simp
  moreover have "map_option events
     (plugin_nested (\<lambda>k p. p = ''**'') (\<lambda>e. Some wrapEngine) (\<lambda>b. True) Map.empty
        ''layouts'' [] \<lparr>pattern = PString ''**'', dflt = Undefined\<rparr>
        [(''index.md'', plainFile (LStr ''x.hbs'') ''text'')] sampleInherited)
     = Some [Rendered ''x.hbs'' (Some TypeError), Done (Some TypeError)]" by code_simp
  ultimately show ?thesis by simp
qed

theorem cleanup_after_success_witness:
  "\<exists>out fs' c'.
     plugin_nested (\<lambda>k p. p = ''**'') (\<lambda>e. Some wrapEngine) (\<lambda>b. True) Map.empty
        ''layouts'' [] \<lparr>pattern = PString ''**'', dflt = Undefined\<rparr>
        [(''index.md'', plainFile (LStr ''a.hbs'') ''text'')] sampleForest = Some out \<and>
     out_state out = Some (fs', c') \<and>
     map fst c' = map fst sampleForest \<and>
     (\<forall>k f'. map_of c' k = Some f' \<longrightarrow>
        layout f' = Undefined \<and> \<not> seen f' \<and> \<not> finished f' \<and> children f' = None \<and>
        (\<exists>f. map_of sampleForest k = Some f \<and> data f' = data f))"
proof -
  let ?run = "plugin_nested (\<lambda>k p. p = ''**'') (\<lambda>e. Some wrapEngine) (\<lambda>b. True) Map.empty
        ''layouts'' [] \<lparr>pattern = PString ''**'', dflt = Undefined\<rparr>
        [(''index.md'', plainFile (LStr ''a.hbs'') ''text'')] sampleForest"
  have "case ?run of Some out \<Rightarrow> (case out_state out of Some s \<Rightarrow> True | None \<Rightarrow> False) | None \<Rightarrow> False"
    by code_simp
  then obtain out fs' c' where run: "?run = Some out \<and> out_state out = Some (fs', c')"
    by (auto split: option.splits)
  from cleanup_after_success [OF run] run show ?thesis by blast
qed

end
